theory Spec2Isabelle
  imports Main "HOL-Library.Sublist" "HOL-Library.Char_ord" "HOL-Library.List_Lexorder"
    "HOL-Library.Multiset"
begin

section \<open>Strings of bytes and the library functions of main.go\<close>

text \<open>
  A Go string is a sequence of bytes; it is modelled as \<^typ>\<open>string\<close>, a list of 8-bit
  characters. The functions of this section are the functions of the packages
  \<^verbatim>\<open>strings\<close> and \<^verbatim>\<open>bufio\<close> that \<^verbatim>\<open>processFile\<close> calls, with the behaviour
  their documentation gives them.
\<close>

abbreviation LF :: char where "LF \<equiv> CHR 0x0A"
abbreviation CR :: char where "CR \<equiv> CHR 0x0D"

text \<open>\<^verbatim>\<open>strings.HasPrefix\<close>, \<^verbatim>\<open>strings.TrimPrefix\<close>, \<^verbatim>\<open>strings.TrimSuffix\<close>.\<close>

definition HasPrefix :: "string \<Rightarrow> string \<Rightarrow> bool" where
  "HasPrefix s p = prefix p s"

definition TrimPrefix :: "string \<Rightarrow> string \<Rightarrow> string" where
  "TrimPrefix s p = (if HasPrefix s p then drop (length p) s else s)"

definition TrimSuffix :: "string \<Rightarrow> string \<Rightarrow> string" where
  "TrimSuffix s suf = (if suffix suf s then take (length s - length suf) s else s)"

text \<open>
  \<^verbatim>\<open>strings.TrimRight(s, cutset)\<close> removes every trailing byte that occurs in the cutset
  (the only cutset of main.go is the single byte \<^verbatim>\<open>"\n"\<close>).
\<close>

definition TrimRight :: "string \<Rightarrow> string \<Rightarrow> string" where
  "TrimRight s cutset = rev (dropWhile (\<lambda>c. c \<in> set cutset) (rev s))"

text \<open>
  \<^verbatim>\<open>strings.Index(s, sep)\<close>: the index of the first occurrence of \<^verbatim>\<open>sep\<close> in
  \<^verbatim>\<open>s\<close>, or \<^verbatim>\<open>-1\<close> when there is none.
\<close>

fun Index :: "string \<Rightarrow> string \<Rightarrow> int" where
  "Index [] sep = (if sep = [] then 0 else - 1)"
| "Index (c # cs) sep =
     (if prefix sep (c # cs) then 0
      else (let r = Index cs sep in if r < 0 then - 1 else r + 1))"

text \<open>
  The slice expression \<^verbatim>\<open>s[:i]\<close>. Go panics when the index is negative or beyond the
  length of the string; the panic is the value \<open>None\<close>.
\<close>

definition slice_to :: "string \<Rightarrow> int \<Rightarrow> string option" where
  "slice_to s i = (if 0 \<le> i \<and> i \<le> int (length s) then Some (take (nat i) s) else None)"

subsection \<open>White space\<close>

text \<open>
  \<^verbatim>\<open>strings.TrimSpace\<close> removes leading and trailing white space as Unicode defines it
  (\<^verbatim>\<open>unicode.IsSpace\<close>), reading the bytes as UTF-8. The white space runes and their
  encodings are: the six ASCII bytes tab, line feed, vertical tab, form feed, carriage
  return and space; U+0085 and U+00A0 (two bytes); U+1680, U+2000 to U+200A, U+2028,
  U+2029, U+202F, U+205F and U+3000 (three bytes). A byte sequence that is not valid
  UTF-8 decodes to the replacement rune, which is not white space.
\<close>

definition asciiSpace :: "char list" where
  "asciiSpace = [CHR 0x09, CHR 0x0A, CHR 0x0B, CHR 0x0C, CHR 0x0D, CHR 0x20]"

definition space2 :: "string list" where
  "space2 = [[CHR 0xC2, CHR 0x85], [CHR 0xC2, CHR 0xA0]]"

definition space3 :: "string list" where
  "space3 =
    [[CHR 0xE1, CHR 0x9A, CHR 0x80],
     [CHR 0xE2, CHR 0x80, CHR 0x80], [CHR 0xE2, CHR 0x80, CHR 0x81],
     [CHR 0xE2, CHR 0x80, CHR 0x82], [CHR 0xE2, CHR 0x80, CHR 0x83],
     [CHR 0xE2, CHR 0x80, CHR 0x84], [CHR 0xE2, CHR 0x80, CHR 0x85],
     [CHR 0xE2, CHR 0x80, CHR 0x86], [CHR 0xE2, CHR 0x80, CHR 0x87],
     [CHR 0xE2, CHR 0x80, CHR 0x88], [CHR 0xE2, CHR 0x80, CHR 0x89],
     [CHR 0xE2, CHR 0x80, CHR 0x8A],
     [CHR 0xE2, CHR 0x80, CHR 0xA8], [CHR 0xE2, CHR 0x80, CHR 0xA9],
     [CHR 0xE2, CHR 0x80, CHR 0xAF],
     [CHR 0xE2, CHR 0x81, CHR 0x9F],
     [CHR 0xE3, CHR 0x80, CHR 0x80]]"

text \<open>The number of bytes of the white space rune that starts the string; 0 when none does.\<close>

definition leadingSpace :: "string \<Rightarrow> nat" where
  "leadingSpace s =
     (if s \<noteq> [] \<and> hd s \<in> set asciiSpace then 1
      else if take 2 s \<in> set space2 then 2
      else if take 3 s \<in> set space3 then 3
      else 0)"

text \<open>The number of bytes of the white space rune that ends the string; 0 when none does.\<close>

definition trailingSpace :: "string \<Rightarrow> nat" where
  "trailingSpace s =
     (if s \<noteq> [] \<and> last s \<in> set asciiSpace then 1
      else if drop (length s - 2) s \<in> set space2 then 2
      else if drop (length s - 3) s \<in> set space3 then 3
      else 0)"

text \<open>
  \<^verbatim>\<open>strings.TrimSpace\<close>: white space runes are removed from the left until the string
  starts with something else, then from the right.
\<close>

function trimLeftSpace :: "string \<Rightarrow> string" where
  "trimLeftSpace s =
     (if leadingSpace s = 0 then s else trimLeftSpace (drop (leadingSpace s) s))"
  by pat_completeness auto
termination
proof (relation "measure length")
  fix s :: string
  assume "leadingSpace s \<noteq> 0"
  moreover have "leadingSpace [] = 0"
    by (simp add: leadingSpace_def space2_def space3_def)
  ultimately have "s \<noteq> []" and "0 < leadingSpace s"
    by auto
  then show "(drop (leadingSpace s) s, s) \<in> measure length"
    by simp
qed simp

function trimRightSpace :: "string \<Rightarrow> string" where
  "trimRightSpace s =
     (if trailingSpace s = 0 then s
      else trimRightSpace (take (length s - trailingSpace s) s))"
  by pat_completeness auto
termination
proof (relation "measure length")
  fix s :: string
  assume "trailingSpace s \<noteq> 0"
  moreover have "trailingSpace [] = 0"
    by (simp add: trailingSpace_def space2_def space3_def)
  ultimately have "s \<noteq> []" and "0 < trailingSpace s"
    by auto
  then show "(take (length s - trailingSpace s) s, s) \<in> measure length"
    by simp
qed simp

declare trimLeftSpace.simps [simp del] trimRightSpace.simps [simp del]

definition TrimSpace :: "string \<Rightarrow> string" where
  "TrimSpace s = trimRightSpace (trimLeftSpace s)"

subsection \<open>The line scanner\<close>

text \<open>
  \<^verbatim>\<open>bufio.Scanner\<close> with its default split function \<^verbatim>\<open>ScanLines\<close>: the input is cut
  at every line feed, a last piece without a line feed is a line when it is not empty,
  and one trailing carriage return is dropped from each line (\<^verbatim>\<open>dropCR\<close>).
\<close>

fun rawLines :: "string \<Rightarrow> string list" where
  "rawLines [] = []"
| "rawLines (c # cs) =
     (if c = LF then [] # rawLines cs
      else (case rawLines cs of [] \<Rightarrow> [[c]] | l # ls \<Rightarrow> (c # l) # ls))"

definition dropCR :: "string \<Rightarrow> string" where
  "dropCR data = (if data \<noteq> [] \<and> last data = CR then butlast data else data)"

text \<open>
  The scanner's buffer holds at most \<^verbatim>\<open>bufio.MaxScanTokenSize\<close> bytes. A line of that
  many bytes or more (before its line feed) fills the buffer without a token: the scanner
  stops there, \<^verbatim>\<open>Scan\<close> returns false and \<^verbatim>\<open>Err\<close> returns \<^verbatim>\<open>ErrTooLong\<close>. The lines
  before it have been delivered.
\<close>

definition MaxScanTokenSize :: nat where
  "MaxScanTokenSize = 64 * 1024"

definition fitsBuffer :: "string \<Rightarrow> bool" where
  "fitsBuffer l = (length l < MaxScanTokenSize)"

text \<open>The tokens that the loop \<^verbatim>\<open>for scanner.Scan() { ... scanner.Text() ... }\<close> sees.\<close>

definition scanTokens :: "string \<Rightarrow> string list" where
  "scanTokens data = map dropCR (takeWhile fitsBuffer (rawLines data))"

text \<open>Whether the scanner stopped at a line that is too long.\<close>

definition scanTooLong :: "string \<Rightarrow> bool" where
  "scanTooLong data = (\<not> list_all fitsBuffer (rawLines data))"

section \<open>Errors, outcomes and the file system\<close>

text \<open>
  A Go error is either an error of the operating system or of the scanner, or an error
  that \<^verbatim>\<open>fmt.Errorf("...: %w", ..., err)\<close> wraps: \<open>Errorf\<close> with the text before
  the wrapped error, and the wrapped error.
\<close>

datatype error = OSError string | ErrTooLong | Errorf string error

text \<open>
  What a call of \<^verbatim>\<open>processFile\<close> or \<^verbatim>\<open>processIncludePath\<close> does when it comes back:
  it returns the pair \<^verbatim>\<open>(string, error)\<close>, with \<open>None\<close> for the \<^verbatim>\<open>nil\<close> error, or it
  panics. A call that does not come back has no outcome.
\<close>

datatype outcome = Returned string "error option" | Panicked

text \<open>
  The file system and the path functions of the platform, as main.go reads them. Nothing
  in main.go writes to the file system, so one value of this record stands for a whole
  run.
  \<^item> \<open>filepath_Abs\<close>, \<open>filepath_Rel\<close>, \<open>filepath_ToSlash\<close>, \<open>filepath_Dir\<close>,
    \<open>filepath_Join\<close>: the functions of \<^verbatim>\<open>path/filepath\<close>;
  \<^item> \<open>os_Open\<close>: the bytes that reading the opened file delivers, and the error that
    ends the reading (\<open>None\<close> at the end of the file);
  \<^item> \<open>os_Stat\<close>, \<open>os_Lstat\<close>: whether the path is a directory (\<^verbatim>\<open>info.IsDir()\<close>);
  \<^item> \<open>os_Readdirnames\<close>: the names in a directory, in the order the operating system
    lists them.
\<close>

record world =
  filepath_Abs :: "string \<Rightarrow> error + string"
  filepath_Rel :: "string \<Rightarrow> string \<Rightarrow> error + string"
  filepath_ToSlash :: "string \<Rightarrow> string"
  filepath_Dir :: "string \<Rightarrow> string"
  filepath_Join :: "string \<Rightarrow> string \<Rightarrow> string"
  os_Open :: "string \<Rightarrow> error + (string \<times> error option)"
  os_Stat :: "string \<Rightarrow> error + bool"
  os_Lstat :: "string \<Rightarrow> error + bool"
  os_Readdirnames :: "string \<Rightarrow> error + string list"

subsection \<open>filepath.Walk\<close>

text \<open>
  \<^verbatim>\<open>filepath.Walk(root, fn)\<close> calls \<^verbatim>\<open>fn(path, info, err)\<close> for the root and for every
  entry below it, a directory before its entries, the entries of a directory in the
  lexical order of their names (\<^verbatim>\<open>readDirNames\<close> sorts them). The first error that
  \<^verbatim>\<open>fn\<close> returns ends the walk and is returned. (The walk function of main.go never
  returns \<^verbatim>\<open>SkipDir\<close> or \<^verbatim>\<open>SkipAll\<close>.)

  The function \<^verbatim>\<open>fn\<close> of main.go appends to a \<^verbatim>\<open>strings.Builder\<close>; the builder is the
  state that the walk threads through the calls: \<open>fn path info err acc\<close> is
  \<open>Some (Returned acc' e)\<close> when the call returns \<open>e\<close> and leaves the builder at \<open>acc'\<close>.
  The argument \<open>info\<close> is \<open>None\<close> for a \<^verbatim>\<open>nil\<close> \<^verbatim>\<open>FileInfo\<close>, else whether the entry is a
  directory. The first argument of \<open>walk\<close> bounds the depth of the directory tree.
\<close>

type_synonym walkFunc = "string \<Rightarrow> bool option \<Rightarrow> error option \<Rightarrow> string \<Rightarrow> outcome option"

definition readDirNames :: "world \<Rightarrow> string \<Rightarrow> error + string list" where
  "readDirNames w dirname =
     (case os_Readdirnames w dirname of Inl err \<Rightarrow> Inl err | Inr names \<Rightarrow> Inr (sort names))"

fun walk :: "nat \<Rightarrow> world \<Rightarrow> string \<Rightarrow> bool \<Rightarrow> walkFunc \<Rightarrow> string \<Rightarrow> outcome option"
  and walkNames :: "nat \<Rightarrow> world \<Rightarrow> string \<Rightarrow> string list \<Rightarrow> walkFunc \<Rightarrow> string \<Rightarrow> outcome option"
where
  "walk 0 w path isDir walkFn acc = None"
| "walk (Suc k) w path isDir walkFn acc =
     (if \<not> isDir then walkFn path (Some isDir) None acc
      else (case readDirNames w path of
        Inl err \<Rightarrow> walkFn path (Some isDir) (Some err) acc
      | Inr names \<Rightarrow>
          (case walkFn path (Some isDir) None acc of
             None \<Rightarrow> None
           | Some Panicked \<Rightarrow> Some Panicked
           | Some (Returned acc' (Some err1)) \<Rightarrow> Some (Returned acc' (Some err1))
           | Some (Returned acc' None) \<Rightarrow> walkNames k w path names walkFn acc')))"
| "walkNames k w path [] walkFn acc = Some (Returned acc None)"
| "walkNames k w path (name # names) walkFn acc =
     (let filename = filepath_Join w path name in
      case (case os_Lstat w filename of
              Inl err \<Rightarrow> walkFn filename None (Some err) acc
            | Inr fileIsDir \<Rightarrow> walk k w filename fileIsDir walkFn acc) of
        None \<Rightarrow> None
      | Some Panicked \<Rightarrow> Some Panicked
      | Some (Returned acc' (Some err)) \<Rightarrow> Some (Returned acc' (Some err))
      | Some (Returned acc' None) \<Rightarrow> walkNames k w path names walkFn acc')"

definition Walk :: "nat \<Rightarrow> world \<Rightarrow> string \<Rightarrow> walkFunc \<Rightarrow> string \<Rightarrow> outcome option" where
  "Walk k w root walkFn acc =
     (case os_Lstat w root of
        Inl err \<Rightarrow> walkFn root None (Some err) acc
      | Inr isDir \<Rightarrow> walk k w root isDir walkFn acc)"

section \<open>main.go\<close>

subsection \<open>processFile and processIncludePath\<close>

text \<open>
  The loop \<^verbatim>\<open>for scanner.Scan() { ... }\<close> of \<^verbatim>\<open>processFile\<close>, over the lines that the
  scanner delivers, with the \<^verbatim>\<open>strings.Builder\<close> \<^verbatim>\<open>output\<close> as accumulator. The argument
  \<open>inc\<close> is the call \<^verbatim>\<open>processIncludePath(_, rootDir)\<close>. The result is
  \<open>Some (Returned output None)\<close> when the loop ends, with the builder's content, and
  \<open>Some (Returned [] (Some err))\<close> when \<^verbatim>\<open>processFile\<close> returns from inside the loop.
  (The warning that \<^verbatim>\<open>log.Printf\<close> writes to the standard error stream for an empty
  directive is not part of the model.)
\<close>

fun processLines ::
  "(string \<Rightarrow> outcome option) \<Rightarrow> world \<Rightarrow> string \<Rightarrow> string list \<Rightarrow> string \<Rightarrow> outcome option"
where
  "processLines inc w filePath [] output = Some (Returned output None)"
| "processLines inc w filePath (line # rest) output =
     (let trimmedLine = TrimSpace line in
      if HasPrefix trimmedLine ''#include:'' then
        (case slice_to line (Index line ''#'') of
           None \<Rightarrow> Some Panicked
         | Some indentation \<Rightarrow>
            (let includePathStr = TrimSpace (TrimPrefix trimmedLine ''#include:'') in
             if includePathStr = [] then processLines inc w filePath rest output
             else
              (let baseDir = filepath_Dir w filePath;
                   fullIncludePath = filepath_Join w baseDir includePathStr in
               case inc fullIncludePath of
                 None \<Rightarrow> None
               | Some Panicked \<Rightarrow> Some Panicked
               | Some (Returned includedContent (Some err)) \<Rightarrow>
                   Some (Returned []
                     (Some (Errorf (''error processing include '' @ [CHR 0x27] @ includePathStr
                                      @ [CHR 0x27] @ '' in file '' @ filePath @ '': '') err)))
               | Some (Returned includedContent None) \<Rightarrow>
                  (let contentToIndent = TrimSuffix includedContent [LF];
                       indented =
                         (if contentToIndent \<noteq> [] then
                            concat (map (\<lambda>text. indentation @ text @ [LF])
                                        (scanTokens contentToIndent))
                          else [])
                   in processLines inc w filePath rest (output @ indented @ [LF])))))
      else processLines inc w filePath rest (output @ line @ [LF]))"

text \<open>\<^verbatim>\<open>scanner.Err()\<close> after the loop: the scanner's own error, or the error of the read.\<close>

definition scannerErr :: "string \<Rightarrow> error option \<Rightarrow> error option" where
  "scannerErr data readErr = (if scanTooLong data then Some ErrTooLong else readErr)"

text \<open>
  The function that \<^verbatim>\<open>processIncludePath\<close> passes to \<^verbatim>\<open>filepath.Walk\<close>; \<open>pf\<close> is the call
  \<^verbatim>\<open>processFile(_, rootDir, false)\<close>.
\<close>

definition includeWalkFn :: "(string \<Rightarrow> outcome option) \<Rightarrow> walkFunc" where
  "includeWalkFn pf p f err dirContent =
     (case err of
        Some e \<Rightarrow> Some (Returned dirContent (Some e))
      | None \<Rightarrow>
         (case f of
            None \<Rightarrow> Some Panicked
          | Some fIsDir \<Rightarrow>
             if \<not> fIsDir then
               (case pf p of
                  None \<Rightarrow> None
                | Some Panicked \<Rightarrow> Some Panicked
                | Some (Returned fileContent (Some e)) \<Rightarrow>
                    Some (Returned dirContent
                      (Some (Errorf (''failed to process file in directory '' @ p @ '': '') e)))
                | Some (Returned fileContent None) \<Rightarrow>
                    Some (Returned (dirContent @ fileContent) None))
             else Some (Returned dirContent None)))"

text \<open>
  The two functions call each other and need not come back (a file may include itself).
  The first argument bounds the depth of the calls, and the depth of the directory trees
  walked: a run that needs more has no outcome, \<open>None\<close>.
\<close>

fun processFile :: "nat \<Rightarrow> world \<Rightarrow> string \<Rightarrow> string \<Rightarrow> bool \<Rightarrow> outcome option"
  and processIncludePath :: "nat \<Rightarrow> world \<Rightarrow> string \<Rightarrow> string \<Rightarrow> outcome option"
where
  "processFile 0 w filePath rootDir isRoot = None"
| "processFile (Suc n) w filePath rootDir isRoot =
     (case filepath_Abs w filePath of
        Inl err \<Rightarrow>
          Some (Returned [] (Some (Errorf (''could not get absolute path for '' @ filePath @ '': '') err)))
      | Inr absPath \<Rightarrow>
         (case os_Open w absPath of
            Inl err \<Rightarrow> Some (Returned [] (Some (Errorf (''failed to open file '' @ filePath @ '': '') err)))
          | Inr (data, readErr) \<Rightarrow>
             (let relativePath =
                    (case filepath_Rel w rootDir absPath of
                       Inl err \<Rightarrow> filePath
                     | Inr rel \<Rightarrow> rel);
                  output =
                    (if \<not> isRoot then ''# START '' @ filepath_ToSlash w relativePath @ [LF]
                     else [])
              in case processLines (\<lambda>p. processIncludePath n w p rootDir) w filePath
                        (scanTokens data) output of
                   None \<Rightarrow> None
                 | Some Panicked \<Rightarrow> Some Panicked
                 | Some (Returned text (Some err)) \<Rightarrow> Some (Returned text (Some err))
                 | Some (Returned finalResult None) \<Rightarrow>
                    (case scannerErr data readErr of
                       Some err \<Rightarrow>
                         Some (Returned [] (Some (Errorf (''error reading file '' @ filePath @ '': '') err)))
                     | None \<Rightarrow>
                        if \<not> isRoot then
                          Some (Returned (TrimRight finalResult [LF] @ [LF] @ ''# END ''
                                           @ filepath_ToSlash w relativePath @ [LF]) None)
                        else Some (Returned finalResult None)))))"
| "processIncludePath n w path rootDir =
     (case os_Stat w path of
        Inl err \<Rightarrow> Some (Returned [] (Some (Errorf (''include path not found '' @ path @ '': '') err)))
      | Inr isDir \<Rightarrow>
         if isDir then
           (case Walk n w path (includeWalkFn (\<lambda>p. processFile n w p rootDir False)) [] of
              None \<Rightarrow> None
            | Some Panicked \<Rightarrow> Some Panicked
            | Some (Returned dirContent (Some walkErr)) \<Rightarrow> Some (Returned [] (Some walkErr))
            | Some (Returned dirContent None) \<Rightarrow> Some (Returned dirContent None))
         else processFile n w path rootDir False)"

subsection \<open>main\<close>

text \<open>
  \<^verbatim>\<open>main\<close>, as what it writes to the standard output stream and its exit status
  (\<^verbatim>\<open>log.Fatalf\<close> writes to the standard error stream and exits with status 1; a panic
  exits with status 2). \<open>args\<close> is \<^verbatim>\<open>os.Args\<close>. With a wrong number of arguments
  \<^verbatim>\<open>main\<close> prints the usage, waits for a line on the standard input and exits with
  status 1.
\<close>

definition main :: "nat \<Rightarrow> world \<Rightarrow> string list \<Rightarrow> (string \<times> nat) option" where
  "main n w args =
     (if length args \<noteq> 2 then
        Some (''Usage: expander.exe <directory>'' @ [LF] @ [LF] @ ''Press Enter to exit...'' @ [LF], 1)
      else
        (let rootDir = args ! 1 in
         case os_Stat w rootDir of
           Inl err \<Rightarrow> Some ([], 1)
         | Inr isDir \<Rightarrow>
            if \<not> isDir then Some ([], 1)
            else
              (let initialFilePath = filepath_Join w rootDir ''cloud-init.tmpl.yaml'' in
               case os_Stat w initialFilePath of
                 Inl err \<Rightarrow> Some ([], 1)
               | Inr _ \<Rightarrow>
                  (case processFile n w initialFilePath rootDir True of
                     None \<Rightarrow> None
                   | Some Panicked \<Rightarrow> Some ([], 2)
                   | Some (Returned finalContent (Some err)) \<Rightarrow> Some ([], 1)
                   | Some (Returned finalContent None) \<Rightarrow> Some (finalContent, 0)))))"

section \<open>Example file systems\<close>

text \<open>
  The concrete runs below use a small file system given as a table from paths to files
  and directories. Its paths are absolute, clean and separated by slashes, as on Unix;
  on such paths \<^verbatim>\<open>filepath.Abs\<close> and \<^verbatim>\<open>filepath.ToSlash\<close> change nothing,
  \<^verbatim>\<open>filepath.Join(d, p)\<close> is \<^verbatim>\<open>d/p\<close> for a clean relative \<^verbatim>\<open>p\<close>, \<^verbatim>\<open>filepath.Dir\<close> cuts
  the last element off, and \<^verbatim>\<open>filepath.Rel(base, target)\<close> cuts \<^verbatim>\<open>base/\<close> off a target
  below the base. Reading a directory as a file fails.
\<close>

datatype node = RegularFile string | Directory "string list"

definition exampleDir :: "string \<Rightarrow> string" where
  "exampleDir p = rev (drop 1 (dropWhile (\<lambda>c. c \<noteq> CHR ''/'') (rev p)))"

definition exampleRel :: "string \<Rightarrow> string \<Rightarrow> error + string" where
  "exampleRel base target =
     (if prefix (base @ ''/'') target then Inr (drop (length base + 1) target)
      else Inl (OSError ''Rel: cannot make the target relative to the base''))"

definition exampleOpen :: "(string \<times> node) list \<Rightarrow> string \<Rightarrow> error + (string \<times> error option)" where
  "exampleOpen fs p =
     (case map_of fs p of
        None \<Rightarrow> Inl (OSError ''no such file or directory'')
      | Some (RegularFile data) \<Rightarrow> Inr (data, None)
      | Some (Directory names) \<Rightarrow> Inr ([], Some (OSError ''is a directory'')))"

definition exampleStat :: "(string \<times> node) list \<Rightarrow> string \<Rightarrow> error + bool" where
  "exampleStat fs p =
     (case map_of fs p of
        None \<Rightarrow> Inl (OSError ''no such file or directory'')
      | Some (RegularFile data) \<Rightarrow> Inr False
      | Some (Directory names) \<Rightarrow> Inr True)"

definition exampleReaddirnames :: "(string \<times> node) list \<Rightarrow> string \<Rightarrow> error + string list" where
  "exampleReaddirnames fs p =
     (case map_of fs p of
        None \<Rightarrow> Inl (OSError ''no such file or directory'')
      | Some (RegularFile data) \<Rightarrow> Inl (OSError ''not a directory'')
      | Some (Directory names) \<Rightarrow> Inr names)"

definition exampleWorld :: "(string \<times> node) list \<Rightarrow> world" where
  "exampleWorld fs =
     \<lparr> filepath_Abs = Inr,
       filepath_Rel = exampleRel,
       filepath_ToSlash = (\<lambda>p. p),
       filepath_Dir = exampleDir,
       filepath_Join = (\<lambda>d p. d @ ''/'' @ p),
       os_Open = exampleOpen fs,
       os_Stat = exampleStat fs,
       os_Lstat = exampleStat fs,
       os_Readdirnames = exampleReaddirnames fs \<rparr>"

section \<open>Notions of the specification\<close>

text \<open>
  The encodings of the white space runes: what \<^verbatim>\<open>strings.TrimSpace\<close> removes.
\<close>

definition spaceRunes :: "string list" where
  "spaceRunes = map (\<lambda>c. [c]) asciiSpace @ space2 @ space3"

text \<open>A directive line, as \<^verbatim>\<open>processFile\<close> tests it.\<close>

definition isDirective :: "string \<Rightarrow> bool" where
  "isDirective line = HasPrefix (TrimSpace line) ''#include:''"

text \<open>Every line followed by a line feed: how \<^verbatim>\<open>processFile\<close> writes lines.\<close>

definition joinLines :: "string list \<Rightarrow> string" where
  "joinLines ls = concat (map (\<lambda>l. l @ [LF]) ls)"

text \<open>
  Line endings normalised to a line feed, in the words of the specification: every
  carriage return that a line feed follows is removed; and a text made to end in a line
  feed.
\<close>

fun normalizeEOL :: "string \<Rightarrow> string" where
  "normalizeEOL (c # d # cs) =
     (if c = CR \<and> d = LF then LF # normalizeEOL cs else c # normalizeEOL (d # cs))"
| "normalizeEOL cs = cs"

definition withFinalLF :: "string \<Rightarrow> string" where
  "withFinalLF s = (if s = [] \<or> last s = LF then s else s @ [LF])"

text \<open>
  The parts of a directive line: the path after \<^verbatim>\<open>#include:\<close> and the indentation before
  the character \<^verbatim>\<open>#\<close>.
\<close>

definition includePath :: "string \<Rightarrow> string" where
  "includePath line = TrimSpace (TrimPrefix (TrimSpace line) ''#include:'')"

definition indentationOf :: "string \<Rightarrow> string" where
  "indentationOf line = take (nat (Index line ''#'')) line"

text \<open>
  The lines that the loop of \<^verbatim>\<open>processFile\<close> writes for one line of the input: the
  line itself; nothing for a directive without a path; and for any other directive the
  lines that the second scanner delivers of the included text, each after the
  indentation, and then one empty line.
\<close>

definition blockLines :: "(string \<Rightarrow> outcome option) \<Rightarrow> world \<Rightarrow> string \<Rightarrow> string \<Rightarrow> string list" where
  "blockLines inc w filePath line =
     (if \<not> isDirective line then [line]
      else if includePath line = [] then []
      else (case inc (filepath_Join w (filepath_Dir w filePath) (includePath line)) of
              Some (Returned includedContent None) \<Rightarrow>
                map (\<lambda>text. indentationOf line @ text) (scanTokens (TrimSuffix includedContent [LF]))
                @ [[]]
            | _ \<Rightarrow> []))"

text \<open>
  The regular files below a directory, in the words of the specification: every entry
  that is not a directory, once, the entries of each directory in the lexical order of
  their names, a directory's entries in the place of the directory. The first argument
  bounds the depth of the tree; the result is \<open>None\<close> when the tree is deeper or when an
  entry cannot be read.
\<close>

fun listFiles :: "nat \<Rightarrow> world \<Rightarrow> string \<Rightarrow> bool \<Rightarrow> string list option"
  and listNames :: "nat \<Rightarrow> world \<Rightarrow> string \<Rightarrow> string list \<Rightarrow> string list option"
where
  "listFiles 0 w path isDir = None"
| "listFiles (Suc k) w path isDir =
     (if \<not> isDir then Some [path]
      else (case os_Readdirnames w path of
              Inl err \<Rightarrow> None
            | Inr names \<Rightarrow> listNames k w path (sort names)))"
| "listNames k w path [] = Some []"
| "listNames k w path (name # names) =
     (case os_Lstat w (filepath_Join w path name) of
        Inl err \<Rightarrow> None
      | Inr isDir \<Rightarrow>
         (case listFiles k w (filepath_Join w path name) isDir of
            None \<Rightarrow> None
          | Some files \<Rightarrow>
             (case listNames k w path names of
                None \<Rightarrow> None
              | Some others \<Rightarrow> Some (files @ others))))"

text \<open>
  The expansions of a list of files as included files, one after the other, up to the
  first that fails.
\<close>

fun expandAll :: "(string \<Rightarrow> outcome option) \<Rightarrow> string list \<Rightarrow> string \<Rightarrow> outcome option" where
  "expandAll pf [] acc = Some (Returned acc None)"
| "expandAll pf (p # ps) acc =
     (case pf p of
        None \<Rightarrow> None
      | Some Panicked \<Rightarrow> Some Panicked
      | Some (Returned fileContent (Some e)) \<Rightarrow>
          Some (Returned acc (Some (Errorf (''failed to process file in directory '' @ p @ '': '') e)))
      | Some (Returned fileContent None) \<Rightarrow> expandAll pf ps (acc @ fileContent))"

text \<open>The lines without the empty lines at the end.\<close>

definition dropTrailingEmpty :: "string list \<Rightarrow> string list" where
  "dropTrailingEmpty ls = rev (dropWhile (\<lambda>l. l = []) (rev ls))"

text \<open>
  The lines that stand in the output for one line of the input, in the words of the
  specification: a line that is not a directive stands for itself; a directive with an
  empty path gives nothing; any other directive gives every line of its expanded include
  (the text without one line feed at its end; a line without one carriage return at its
  end), each after the indentation, and then one empty line.
\<close>

definition expandedLines :: "(string \<Rightarrow> outcome option) \<Rightarrow> world \<Rightarrow> string \<Rightarrow> string \<Rightarrow> string list" where
  "expandedLines inc w filePath line =
     (if \<not> isDirective line then [line]
      else if includePath line = [] then []
      else (case inc (filepath_Join w (filepath_Dir w filePath) (includePath line)) of
              Some (Returned includedContent None) \<Rightarrow>
                map (\<lambda>text. indentationOf line @ dropCR text)
                    (rawLines (TrimSuffix includedContent [LF]))
                @ [[]]
            | _ \<Rightarrow> []))"

text \<open>
  Every line of the expanded include of a directive fits the buffer of the scanner that
  reads it again.
\<close>

definition includeFits :: "(string \<Rightarrow> outcome option) \<Rightarrow> world \<Rightarrow> string \<Rightarrow> string \<Rightarrow> bool" where
  "includeFits inc w filePath line =
     (case inc (filepath_Join w (filepath_Dir w filePath) (includePath line)) of
        Some (Returned includedContent None) \<Rightarrow>
          list_all fitsBuffer (rawLines (TrimSuffix includedContent [LF]))
      | _ \<Rightarrow> True)"

section \<open>The file systems of the concrete runs\<close>

definition noFinalLFWorld :: world where
  "noFinalLFWorld = exampleWorld [(''/r/cloud-init.tmpl.yaml'', RegularFile ''abc'')]"

definition crlfWorld :: world where
  "crlfWorld = exampleWorld [(''/r/cloud-init.tmpl.yaml'', RegularFile (''x:'' @ [CR, LF] @ ''y''))]"

definition crcrWorld :: world where
  "crcrWorld = exampleWorld [(''/r/cloud-init.tmpl.yaml'', RegularFile (''a'' @ [CR, CR, LF]))]"

definition crWorld :: world where
  "crWorld = exampleWorld [(''/r/cloud-init.tmpl.yaml'', RegularFile (''a'' @ [CR, LF]))]"

definition newlineNameWorld :: world where
  "newlineNameWorld = exampleWorld [(''/r/d/x'' @ [LF], RegularFile [])]"

definition fooWorld :: world where
  "fooWorld = exampleWorld
     [(''/r/cloud-init.tmpl.yaml'', RegularFile (''  #include: foo.txt'' @ [LF])),
      (''/r/foo.txt'', RegularFile (''a'' @ [LF] @ ''b'' @ [LF]))]"

definition selfIncludeWorld :: world where
  "selfIncludeWorld = exampleWorld
     [(''/r'', Directory [''cloud-init.tmpl.yaml'']),
      (''/r/cloud-init.tmpl.yaml'', RegularFile (''#include: cloud-init.tmpl.yaml'' @ [LF]))]"

definition dirWorld :: world where
  "dirWorld = exampleWorld
     [(''/r/d'', Directory [''z'', ''b'']),
      (''/r/d/z'', RegularFile []),
      (''/r/d/b'', RegularFile (''hello'' @ [LF]))]"

definition otherListing :: "string \<Rightarrow> error + string list" where
  "otherListing p = (if p = ''/r/d'' then Inr [''b'', ''z''] else os_Readdirnames dirWorld p)"

definition failWorld :: world where
  "failWorld = exampleWorld
     [(''/r'', Directory [''cloud-init.tmpl.yaml'', ''d'']),
      (''/r/cloud-init.tmpl.yaml'', RegularFile (''x'' @ [LF] @ ''#include: missing.txt'' @ [LF])),
      (''/r/d'', Directory [''f'']),
      (''/r/d/f'', RegularFile (''#include: missing.txt'' @ [LF]))]"

definition missingErr :: error where
  "missingErr = Errorf ''include path not found /r/missing.txt: ''
                  (OSError ''no such file or directory'')"

definition rootIncludeErr :: error where
  "rootIncludeErr =
     Errorf (''error processing include '' @ [CHR 0x27] @ ''missing.txt'' @ [CHR 0x27]
               @ '' in file /r/cloud-init.tmpl.yaml: '') missingErr"

definition dirFileErr :: error where
  "dirFileErr =
     Errorf (''error processing include '' @ [CHR 0x27] @ ''missing.txt'' @ [CHR 0x27]
               @ '' in file /r/d/f: '')
       (Errorf ''include path not found /r/d/missing.txt: ''
          (OSError ''no such file or directory''))"

definition blankWorld :: world where
  "blankWorld = exampleWorld [(''/r/b.txt'', RegularFile (''hello'' @ [LF, LF]))]"

definition nestedWorld :: world where
  "nestedWorld = exampleWorld
     [(''/r/cloud-init.tmpl.yaml'', RegularFile (''  #include: m.txt'' @ [LF])),
      (''/r/m.txt'', RegularFile (''    #include: n.txt'' @ [LF])),
      (''/r/n.txt'', RegularFile (''a'' @ [LF, LF]))]"

definition longLineWorld :: world where
  "longLineWorld = exampleWorld
     [(''/r/cloud-init.tmpl.yaml'', RegularFile (replicate 65536 (CHR ''x'')))]"

section \<open>Properties of the string functions\<close>

lemma spaceRunes_no_hash: "r \<in> set spaceRunes \<Longrightarrow> CHR ''#'' \<notin> set r"
  by (auto simp: spaceRunes_def asciiSpace_def space2_def space3_def)

lemma leadingSpace_rune:
  assumes "leadingSpace s \<noteq> 0"
  shows "take (leadingSpace s) s \<in> set spaceRunes"
proof (cases "s \<noteq> [] \<and> hd s \<in> set asciiSpace")
  case True
  then have "leadingSpace s = 1" by (simp add: leadingSpace_def)
  moreover from True have "take 1 s = [hd s]" by (cases s) simp_all
  ultimately show ?thesis using True by (simp add: spaceRunes_def)
next
  case False
  note F = this
  show ?thesis
  proof (cases "take 2 s \<in> set space2")
    case True
    with F have "leadingSpace s = 2" by (simp add: leadingSpace_def)
    with True show ?thesis by (simp add: spaceRunes_def)
  next
    case False
    with F assms have "leadingSpace s = 3 \<and> take 3 s \<in> set space3"
      by (simp add: leadingSpace_def split: if_splits)
    then show ?thesis by (simp add: spaceRunes_def)
  qed
qed

text \<open>What \<open>trimLeftSpace\<close> removes is a sequence of white space runes.\<close>

lemma trimLeftSpace_decomp:
  "\<exists>rs. set rs \<subseteq> set spaceRunes \<and> s = concat rs @ trimLeftSpace s"
proof (induction s rule: trimLeftSpace.induct)
  case (1 s)
  show ?case
  proof (cases "leadingSpace s = 0")
    case True
    then have "trimLeftSpace s = s" by (simp add: trimLeftSpace.simps)
    then have "set [] \<subseteq> set spaceRunes \<and> s = concat [] @ trimLeftSpace s" by simp
    then show ?thesis by blast
  next
    case False
    let ?k = "leadingSpace s"
    from 1 False obtain rs where rs: "set rs \<subseteq> set spaceRunes"
      "drop ?k s = concat rs @ trimLeftSpace (drop ?k s)" by blast
    have tl: "trimLeftSpace s = trimLeftSpace (drop ?k s)"
      using False by (subst trimLeftSpace.simps) simp
    have "s = take ?k s @ drop ?k s" by simp
    also have "\<dots> = concat (take ?k s # rs) @ trimLeftSpace s"
      using rs(2) tl by simp
    finally have "s = concat (take ?k s # rs) @ trimLeftSpace s" .
    moreover have "set (take ?k s # rs) \<subseteq> set spaceRunes"
      using rs(1) leadingSpace_rune [OF False] by simp
    ultimately show ?thesis by blast
  qed
qed

lemma trimRightSpace_prefix: "prefix (trimRightSpace s) s"
proof (induction s rule: trimRightSpace.induct)
  case (1 s)
  show ?case
  proof (cases "trailingSpace s = 0")
    case True
    then show ?thesis by (simp add: trimRightSpace.simps)
  next
    case False
    let ?t = "take (length s - trailingSpace s) s"
    have "trimRightSpace s = trimRightSpace ?t"
      using False by (subst trimRightSpace.simps) simp
    moreover have "prefix (trimRightSpace ?t) ?t" using 1 False by simp
    moreover have "prefix ?t s" by (rule take_is_prefix)
    ultimately show ?thesis by (metis prefix_order.trans)
  qed
qed

lemma Index_skip:
  "c \<notin> set pre \<Longrightarrow> Index (pre @ c # t) [c] = int (length pre)"
  by (induction pre) (auto simp: Let_def)

text \<open>A directive line is white space, then the character \<^verbatim>\<open>#\<close>.\<close>

lemma directive_decomp:
  assumes "HasPrefix (TrimSpace line) ''#include:''"
  shows "\<exists>rs t. set rs \<subseteq> set spaceRunes \<and> line = concat rs @ CHR ''#'' # t"
proof -
  obtain rs where rs: "set rs \<subseteq> set spaceRunes" "line = concat rs @ trimLeftSpace line"
    using trimLeftSpace_decomp by blast
  have "prefix ''#include:'' (trimRightSpace (trimLeftSpace line))"
    using assms by (simp add: HasPrefix_def TrimSpace_def)
  then have "prefix ''#include:'' (trimLeftSpace line)"
    using trimRightSpace_prefix prefix_order.trans by blast
  then obtain t where "trimLeftSpace line = CHR ''#'' # t"
    by (auto simp: prefix_def)
  with rs show ?thesis by metis
qed

text \<open>
  The facts that evaluate the string functions and the example file systems on concrete
  inputs.
\<close>

lemmas eval_strings =
  scanTokens_def fitsBuffer_def MaxScanTokenSize_def
  dropCR_def TrimPrefix_def TrimSuffix_def TrimRight_def slice_to_def
  scannerErr_def scanTooLong_def

lemmas eval_trim =
  TrimSpace_def trimLeftSpace.simps trimRightSpace.simps leadingSpace_def trailingSpace_def
  asciiSpace_def space2_def space3_def isDirective_def HasPrefix_def

lemmas eval_world =
  includeWalkFn_def Walk_def readDirNames_def exampleWorld_def exampleDir_def exampleRel_def
  exampleOpen_def exampleStat_def exampleReaddirnames_def

section \<open>Lines and line endings\<close>

lemma joinLines_simps [simp]:
  "joinLines [] = []" "joinLines (l # ls) = l @ LF # joinLines ls"
  "joinLines (xs @ ys) = joinLines xs @ joinLines ys"
  by (simp_all add: joinLines_def)

lemma rawLines_Nil_iff [simp]: "rawLines s = [] \<longleftrightarrow> s = []"
  by (cases s) (simp_all split: list.splits)

lemma rawLines_Cons_notLF:
  "c \<noteq> LF \<Longrightarrow> cs \<noteq> [] \<Longrightarrow> rawLines (c # cs) = (c # hd (rawLines cs)) # tl (rawLines cs)"
  by (cases "rawLines cs") simp_all

lemma hd_rawLines_Nil: "hd (rawLines (d # cs)) = [] \<longleftrightarrow> d = LF"
  by (simp split: list.splits)

lemma dropCR_small [simp]: "dropCR [] = []" "dropCR [CR] = []"
  by (simp_all add: dropCR_def)

lemma dropCR_Cons: "l \<noteq> [] \<or> c \<noteq> CR \<Longrightarrow> dropCR (c # l) = c # dropCR l"
  by (auto simp: dropCR_def)

lemma joinLines_dropCR_rawLines:
  "s = [] \<or> last s = LF \<Longrightarrow> joinLines (map dropCR (rawLines s)) = normalizeEOL s"
proof (induction s rule: normalizeEOL.induct)
  case (1 c d cs)
  show ?case
  proof (cases "c = CR \<and> d = LF")
    case True
    have "cs = [] \<or> last cs = LF" using "1.prems" by (auto split: if_splits)
    with "1.IH"(1) True have "joinLines (map dropCR (rawLines cs)) = normalizeEOL cs" by simp
    with True show ?thesis by simp
  next
    case False
    have "last (d # cs) = LF" using "1.prems" by simp
    with "1.IH"(2) False have IH: "joinLines (map dropCR (rawLines (d # cs))) = normalizeEOL (d # cs)"
      by simp
    show ?thesis
    proof (cases "c = LF")
      case True
      with IH False show ?thesis by simp
    next
      case cLF: False
      obtain l ls where r: "rawLines (d # cs) = l # ls"
        by (cases "rawLines (d # cs)") (simp_all del: rawLines.simps)
      have rc: "rawLines (c # d # cs) = (c # l) # ls"
        using rawLines_Cons_notLF [OF cLF, of "d # cs"] r by simp
      have "l \<noteq> [] \<or> c \<noteq> CR"
        using hd_rawLines_Nil [of d cs] r False by auto
      then have "dropCR (c # l) = c # dropCR l" by (rule dropCR_Cons)
      with rc r IH False show ?thesis by simp
    qed
  qed
qed (simp_all add: dropCR_def)

lemma rawLines_snoc_LF:
  "s \<noteq> [] \<Longrightarrow> last s \<noteq> LF \<Longrightarrow> rawLines (s @ [LF]) = rawLines s"
proof (induction s)
  case Nil then show ?case by simp
next
  case (Cons c s)
  show ?case
  proof (cases "s = []")
    case True with Cons.prems show ?thesis by simp
  next
    case False
    with Cons have "rawLines (s @ [LF]) = rawLines s" by simp
    then show ?thesis by simp
  qed
qed

lemma rawLines_withFinalLF: "rawLines (withFinalLF s) = rawLines s"
  by (simp add: withFinalLF_def rawLines_snoc_LF)

lemma withFinalLF_ends: "withFinalLF s = [] \<or> last (withFinalLF s) = LF"
  by (simp add: withFinalLF_def)

lemma scanTokens_fits:
  assumes "\<not> scanTooLong data"
  shows "scanTokens data = map dropCR (rawLines data)"
proof -
  have "takeWhile fitsBuffer (rawLines data) = rawLines data"
    using assms by (simp add: scanTooLong_def list_all_iff)
  then show ?thesis by (simp only: scanTokens_def)
qed

lemma joinLines_scanTokens:
  assumes "\<not> scanTooLong data"
  shows "joinLines (scanTokens data) = normalizeEOL (withFinalLF data)"
proof -
  have "joinLines (scanTokens data) = joinLines (map dropCR (rawLines (withFinalLF data)))"
    using assms by (simp add: scanTokens_fits rawLines_withFinalLF)
  also have "\<dots> = normalizeEOL (withFinalLF data)"
    using withFinalLF_ends by (rule joinLines_dropCR_rawLines)
  finally show ?thesis .
qed

lemma processLines_plain:
  "list_all (\<lambda>l. \<not> isDirective l) ls \<Longrightarrow>
   processLines inc w fp ls out = Some (Returned (out @ joinLines ls) None)"
  by (induction ls arbitrary: out) (simp_all add: isDirective_def)

lemma processFile_plain:
  assumes "filepath_Abs w fp = Inr a" and "os_Open w a = Inr (data, None)"
    and "\<not> scanTooLong data" and "list_all (\<lambda>l. \<not> isDirective l) (scanTokens data)"
  shows "processFile (Suc n) w fp root True = Some (Returned (joinLines (scanTokens data)) None)"
  using assms by (simp add: processLines_plain scannerErr_def)

lemma processLines_ends_LF:
  "processLines inc w fp ls out = Some (Returned t None) \<Longrightarrow> out = [] \<or> last out = LF
   \<Longrightarrow> t = [] \<or> last t = LF"
proof (induction ls arbitrary: out)
  case Nil
  then show ?case by simp
next
  case (Cons line rest)
  show ?case
  proof (cases "isDirective line")
    case False
    with Cons.prems(1) have "processLines inc w fp rest (out @ line @ [LF]) = Some (Returned t None)"
      by (simp add: isDirective_def)
    then show ?thesis by (rule Cons.IH) simp
  next
    case True
    with Cons.prems(1) obtain out' where
      "processLines inc w fp rest out' = Some (Returned t None)" "out' = [] \<or> last out' = LF"
      using Cons.prems(2)
      by (auto simp: isDirective_def Let_def split: option.splits outcome.splits if_splits)
    then show ?thesis by (rule Cons.IH)
  qed
qed

lemma processFile_root_ends_LF:
  assumes "processFile m w fp root True = Some (Returned out None)"
  shows "out = [] \<or> last out = LF"
proof (cases m)
  case 0
  with assms show ?thesis by simp
next
  case (Suc k)
  with assms obtain ls where
    "processLines (\<lambda>p. processIncludePath k w p root) w fp ls [] = Some (Returned out None)"
    by (auto simp: Let_def split: sum.splits prod.splits option.splits outcome.splits)
  then show ?thesis by (rule processLines_ends_LF) simp
qed

lemma joinLines_rawLines: "s = [] \<or> last s = LF \<Longrightarrow> joinLines (rawLines s) = s"
proof (induction s)
  case Nil
  then show ?case by simp
next
  case (Cons c cs)
  show ?case
  proof (cases "c = LF")
    case True
    with Cons show ?thesis by (auto split: if_splits)
  next
    case False
    with Cons.prems have ne: "cs \<noteq> []" and "last cs = LF" by (auto split: if_splits)
    with Cons.IH have IH: "joinLines (rawLines cs) = cs" by simp
    obtain l ls where r: "rawLines cs = l # ls"
      using ne by (cases "rawLines cs") simp_all
    with IH False show ?thesis by simp
  qed
qed

lemma dropCR_id: "l = [] \<or> last l \<noteq> CR \<Longrightarrow> dropCR l = l"
  by (auto simp: dropCR_def)

lemma TrimRight_LF:
  "s = [] \<or> last s \<noteq> LF \<Longrightarrow> TrimRight (s @ replicate k LF) [LF] = s"
proof -
  assume a: "s = [] \<or> last s \<noteq> LF"
  have "dropWhile (\<lambda>c. c = LF) (replicate k LF @ rev s) = dropWhile (\<lambda>c. c = LF) (rev s)"
    by (induction k) simp_all
  moreover have "dropWhile (\<lambda>c. c = LF) (rev s) = rev s"
    using a by (cases s rule: rev_cases) auto
  ultimately show ?thesis by (simp add: TrimRight_def)
qed

lemma rawLines_line_LF: "LF \<notin> set l \<Longrightarrow> rawLines (l @ LF # t) = l # rawLines t"
  by (induction l) auto

lemma rawLines_last_line: "LF \<notin> set l \<Longrightarrow> l \<noteq> [] \<Longrightarrow> rawLines l = [l]"
proof (induction l)
  case Nil
  then show ?case by simp
next
  case (Cons c l)
  then show ?case by (cases "l = []") auto
qed

lemma TrimSuffix_snoc: "TrimSuffix (s @ [c]) [c] = s"
  by (simp add: TrimSuffix_def suffix_def)

lemma rawLines_joinLines:
  "list_all (\<lambda>l. LF \<notin> set l) ls \<Longrightarrow> rawLines (joinLines ls @ t) = ls @ rawLines t"
  by (induction ls) (simp_all add: rawLines_line_LF del: rawLines.simps)

lemma rawLines_no_LF: "l \<in> set (rawLines s) \<Longrightarrow> LF \<notin> set l"
proof (induction s arbitrary: l)
  case Nil
  then show ?case by simp
next
  case (Cons c cs)
  then show ?case
    by (cases "rawLines cs") (auto split: if_splits)
qed

section \<open>The loop of processFile, line by line\<close>

lemma directive_slice:
  assumes "isDirective line"
  shows "slice_to line (Index line ''#'') = Some (indentationOf line)"
proof -
  obtain rs t where line: "line = concat rs @ CHR ''#'' # t" and rs: "set rs \<subseteq> set spaceRunes"
    using directive_decomp assms unfolding isDirective_def by blast
  have "CHR ''#'' \<notin> set (concat rs)"
    using rs spaceRunes_no_hash by auto
  then have "Index line ''#'' = int (length (concat rs))"
    unfolding line by (rule Index_skip)
  then show ?thesis
    by (simp add: slice_to_def indentationOf_def line)
qed

lemma joinLines_map_indent:
  "concat (map (\<lambda>text. i @ text @ [LF]) ts) = joinLines (map (\<lambda>text. i @ text) ts)"
  by (induction ts) simp_all

lemma scanTokens_Nil [simp]: "scanTokens [] = []"
  by (simp add: scanTokens_def)

text \<open>One step of the loop on a directive whose include returns.\<close>

lemma processLines_directive:
  assumes "isDirective line" and "includePath line \<noteq> []"
    and "inc (filepath_Join w (filepath_Dir w fp) (includePath line)) = Some (Returned c None)"
  shows "processLines inc w fp (line # rest) out
         = processLines inc w fp rest (out @ joinLines (blockLines inc w fp line))"
proof -
  have "(if TrimSuffix c [LF] \<noteq> []
         then concat (map (\<lambda>text. indentationOf line @ text @ [LF]) (scanTokens (TrimSuffix c [LF])))
         else []) = joinLines (map (\<lambda>text. indentationOf line @ text) (scanTokens (TrimSuffix c [LF])))"
    by (simp add: joinLines_map_indent)
  then show ?thesis
    using assms directive_slice [OF assms(1)]
    by (simp add: blockLines_def Let_def isDirective_def [symmetric] includePath_def [symmetric])
qed

lemma processLines_empty_directive:
  assumes "isDirective line" and "includePath line = []"
  shows "processLines inc w fp (line # rest) out = processLines inc w fp rest out"
  using assms directive_slice [OF assms(1)]
  by (simp add: Let_def isDirective_def [symmetric] includePath_def [symmetric])

lemma processLines_plain_line:
  assumes "\<not> isDirective line"
  shows "processLines inc w fp (line # rest) out = processLines inc w fp rest (out @ line @ [LF])"
  using assms by (simp add: isDirective_def)

lemma processLines_failed_directive:
  assumes "isDirective line" and "includePath line \<noteq> []"
    and "\<nexists>c. inc (filepath_Join w (filepath_Dir w fp) (includePath line)) = Some (Returned c None)"
  shows "\<nexists>t. processLines inc w fp (line # rest) out = Some (Returned t None)"
  using assms directive_slice [OF assms(1)]
  by (auto simp: Let_def isDirective_def [symmetric] includePath_def [symmetric]
           split: option.splits outcome.splits)

lemma processLines_lines:
  "processLines inc w fp ls out = Some (Returned t None)
   \<Longrightarrow> t = out @ joinLines (concat (map (blockLines inc w fp) ls))"
proof (induction ls arbitrary: out)
  case Nil
  then show ?case by simp
next
  case (Cons line rest)
  show ?case
  proof (cases "isDirective line")
    case False
    with Cons.prems have "processLines inc w fp rest (out @ line @ [LF]) = Some (Returned t None)"
      by (simp add: processLines_plain_line del: processLines.simps)
    from Cons.IH [OF this] False show ?thesis by (simp add: blockLines_def)
  next
    case True
    show ?thesis
    proof (cases "includePath line = []")
      case e: True
      with True Cons.prems have "processLines inc w fp rest out = Some (Returned t None)"
        by (simp add: processLines_empty_directive del: processLines.simps)
      from Cons.IH [OF this] True e show ?thesis by (simp add: blockLines_def)
    next
      case ne: False
      obtain c where c: "inc (filepath_Join w (filepath_Dir w fp) (includePath line))
          = Some (Returned c None)"
        using processLines_failed_directive [OF True ne, of inc w fp rest out] Cons.prems by blast
      have "processLines inc w fp rest (out @ joinLines (blockLines inc w fp line))
          = Some (Returned t None)"
        using Cons.prems processLines_directive [where inc = inc, OF True ne c] by simp
      from Cons.IH [OF this] show ?thesis by simp
    qed
  qed
qed

lemma processLines_error_empty:
  "processLines inc w fp ls out = Some (Returned t (Some e)) \<Longrightarrow> t = []"
proof (induction ls arbitrary: out)
  case Nil
  then show ?case by simp
next
  case (Cons line rest)
  show ?case
  proof (cases "isDirective line")
    case False
    with Cons show ?thesis by (simp add: processLines_plain_line del: processLines.simps)
  next
    case True
    show ?thesis
    proof (cases "includePath line = []")
      case e: True
      with True Cons show ?thesis by (simp add: processLines_empty_directive del: processLines.simps)
    next
      case ne: False
      show ?thesis
      proof (cases "\<exists>c. inc (filepath_Join w (filepath_Dir w fp) (includePath line))
          = Some (Returned c None)")
        case True
        then obtain c where "inc (filepath_Join w (filepath_Dir w fp) (includePath line))
          = Some (Returned c None)" by blast
        from processLines_directive [where inc = inc, OF \<open>isDirective line\<close> ne this] Cons show ?thesis
          by (simp del: processLines.simps)
      next
        case False
        with Cons.prems \<open>isDirective line\<close> ne directive_slice [OF \<open>isDirective line\<close>]
        show ?thesis
          by (auto simp: Let_def isDirective_def [symmetric] includePath_def [symmetric]
                   split: option.splits outcome.splits)
      qed
    qed
  qed
qed

lemma processLines_success_includes:
  "processLines inc w fp ls out = Some (Returned t None) \<Longrightarrow> line \<in> set ls
   \<Longrightarrow> isDirective line \<Longrightarrow> includePath line \<noteq> []
   \<Longrightarrow> \<exists>c. inc (filepath_Join w (filepath_Dir w fp) (includePath line)) = Some (Returned c None)"
proof (induction ls arbitrary: out)
  case Nil
  then show ?case by simp
next
  case (Cons l rest)
  show ?case
  proof (cases "isDirective l")
    case False
    with Cons.prems have "processLines inc w fp rest (out @ l @ [LF]) = Some (Returned t None)"
      and "line \<in> set rest"
      by (auto simp add: processLines_plain_line simp del: processLines.simps)
    then show ?thesis using Cons.IH Cons.prems(3,4) by blast
  next
    case True
    show ?thesis
    proof (cases "includePath l = []")
      case e: True
      with True Cons.prems have "processLines inc w fp rest out = Some (Returned t None)"
        and "line \<in> set rest"
        by (auto simp add: processLines_empty_directive simp del: processLines.simps)
      then show ?thesis using Cons.IH Cons.prems(3,4) by blast
    next
      case ne: False
      obtain c where c: "inc (filepath_Join w (filepath_Dir w fp) (includePath l))
          = Some (Returned c None)"
        using processLines_failed_directive [OF True ne, of inc w fp rest out] Cons.prems(1) by blast
      show ?thesis
      proof (cases "line = l")
        case True
        with c show ?thesis by blast
      next
        case False
        with Cons.prems(2) have "line \<in> set rest" by simp
        moreover have "processLines inc w fp rest (out @ joinLines (blockLines inc w fp l))
            = Some (Returned t None)"
          using Cons.prems(1) processLines_directive [where inc = inc, OF True ne c] by simp
        ultimately show ?thesis using Cons.IH Cons.prems(3,4) by blast
      qed
    qed
  qed
qed

lemma processLines_no_panic:
  "(\<And>p. inc p \<noteq> Some Panicked) \<Longrightarrow> processLines inc w fp ls out \<noteq> Some Panicked"
proof (induction ls arbitrary: out)
  case Nil
  then show ?case by simp
next
  case (Cons line rest)
  show ?case
  proof (cases "isDirective line")
    case False
    with Cons show ?thesis by (simp add: processLines_plain_line del: processLines.simps)
  next
    case True
    with Cons directive_slice [OF True] show ?thesis
      by (auto simp: Let_def isDirective_def [symmetric] includePath_def [symmetric]
               split: option.splits outcome.splits)
  qed
qed

section \<open>The directory walk\<close>

lemma expandAll_append:
  "expandAll pf (fs @ gs) acc =
     (case expandAll pf fs acc of
        Some (Returned acc' None) \<Rightarrow> expandAll pf gs acc'
      | r \<Rightarrow> r)"
  by (induction fs arbitrary: acc) (auto split: option.splits outcome.splits)

lemma walk_listFiles:
  "(listFiles k w path isDir = Some fs
     \<longrightarrow> walk k w path isDir (includeWalkFn pf) acc = expandAll pf fs acc)"
  "(listNames k w path names = Some fs
     \<longrightarrow> walkNames k w path names (includeWalkFn pf) acc = expandAll pf fs acc)"
proof (induction k w path isDir "includeWalkFn pf" acc and k w path names "includeWalkFn pf" acc
       arbitrary: fs and fs rule: walk_walkNames.induct)
  case (1 w path isDir acc)
  show ?case by simp
next
  case (2 k w path isDir acc)
  show ?case
  proof (cases isDir)
    case False
    then show ?thesis
      by (auto simp: includeWalkFn_def split: option.splits outcome.splits)
  next
    case True
    show ?thesis
    proof
      assume l: "listFiles (Suc k) w path isDir = Some fs"
      then obtain names where n: "os_Readdirnames w path = Inr names"
        and ln: "listNames k w path (sort names) = Some fs"
        using True by (auto split: sum.splits)
      have r: "readDirNames w path = Inr (sort names)"
        using n by (simp add: readDirNames_def)
      have d: "includeWalkFn pf path (Some isDir) None acc = Some (Returned acc None)"
        using True by (simp add: includeWalkFn_def)
      have "walkNames k w path (sort names) (includeWalkFn pf) acc = expandAll pf fs acc"
        using "2.hyps" [OF _ r d] True ln by simp
      then show "walk (Suc k) w path isDir (includeWalkFn pf) acc = expandAll pf fs acc"
        using True r d by simp
    qed
  qed
next
  case (3 k w path acc)
  show ?case by auto
next
  case (4 k w path name names acc)
  show ?case
  proof
    assume l: "listNames k w path (name # names) = Some fs"
    let ?f = "filepath_Join w path name"
    from l obtain d files others where ls: "os_Lstat w ?f = Inr d"
      and lf: "listFiles k w ?f d = Some files"
      and lm: "listNames k w path names = Some others"
      and fs: "fs = files @ others"
      by (auto split: sum.splits option.splits)
    have w1: "walk k w ?f d (includeWalkFn pf) acc = expandAll pf files acc"
      using "4.hyps"(1) [OF refl ls] lf by simp
    show "walkNames k w path (name # names) (includeWalkFn pf) acc = expandAll pf fs acc"
    proof (cases "expandAll pf files acc")
      case None
      with w1 ls fs show ?thesis by (simp add: expandAll_append)
    next
      case (Some r)
      show ?thesis
      proof (cases r)
        case Panicked
        with Some w1 ls fs show ?thesis by (simp add: expandAll_append)
      next
        case (Returned acc' eo)
        show ?thesis
        proof (cases eo)
          case (Some e)
          with Returned \<open>expandAll pf files acc = Some r\<close> w1 ls fs show ?thesis
            by (simp add: expandAll_append)
        next
          case None
          have w: "walk k w ?f d (includeWalkFn pf) acc = Some (Returned acc' None)"
            using w1 Returned None \<open>expandAll pf files acc = Some r\<close> by simp
          have c: "(case os_Lstat w ?f of
                      Inl err \<Rightarrow> includeWalkFn pf ?f None (Some err) acc
                    | Inr fileIsDir \<Rightarrow> walk k w ?f fileIsDir (includeWalkFn pf) acc)
                   = Some (Returned acc' None)"
            using ls w by simp
          have "walkNames k w path names (includeWalkFn pf) acc' = expandAll pf others acc'"
            using "4.hyps"(2) [OF refl c refl refl] lm by simp
          with w ls fs Returned None \<open>expandAll pf files acc = Some r\<close> show ?thesis
            by (simp add: expandAll_append)
        qed
      qed
    qed
  qed
qed

lemma expandAll_success:
  "map pf fs = map (\<lambda>c. Some (Returned c None)) texts
   \<Longrightarrow> expandAll pf fs acc = Some (Returned (acc @ concat texts) None)"
proof (induction fs arbitrary: texts acc)
  case Nil
  then show ?case by simp
next
  case (Cons f fs)
  then obtain c cs where "texts = c # cs" "pf f = Some (Returned c None)"
    "map pf fs = map (\<lambda>c. Some (Returned c None)) cs"
    by (cases texts) auto
  with Cons.IH [of cs "acc @ c"] show ?case by simp
qed

lemma expandAll_success_all:
  "expandAll pf fs acc = Some (Returned t None) \<Longrightarrow> f \<in> set fs
   \<Longrightarrow> \<exists>c. pf f = Some (Returned c None)"
  by (induction fs arbitrary: acc) (auto split: option.splits outcome.splits)

lemma processIncludePath_dir:
  assumes "os_Stat w path = Inr True" and "os_Lstat w path = Inr True"
    and "listFiles n w path True = Some files"
  shows "processIncludePath n w path root =
     (case expandAll (\<lambda>p. processFile n w p root False) files [] of
        Some (Returned dirContent (Some walkErr)) \<Rightarrow> Some (Returned [] (Some walkErr))
      | r \<Rightarrow> r)"
  using assms walk_listFiles(1) [of n w path True files "\<lambda>p. processFile n w p root False" "[]"]
  by (simp add: Walk_def split: option.splits outcome.splits)

lemma sort_mset_eq: "mset xs = mset ys \<Longrightarrow> sort xs = sort (ys :: string list)"
  by (metis properties_for_sort mset_sort sorted_sort)

lemma readDirNames_listing:
  assumes "rel_sum (=) (\<lambda>xs ys. mset xs = mset ys) (listing p) (os_Readdirnames w p)"
  shows "readDirNames (w\<lparr>os_Readdirnames := listing\<rparr>) p = readDirNames w p"
proof (cases "listing p")
  case (Inl e)
  with assms show ?thesis
    by (cases "os_Readdirnames w p") (simp_all add: readDirNames_def)
next
  case (Inr xs)
  with assms obtain ys where ys: "os_Readdirnames w p = Inr ys" "mset xs = mset ys"
    by (cases "os_Readdirnames w p") simp_all
  from ys(2) have "sort xs = sort ys" by (rule sort_mset_eq)
  with Inr ys(1) show ?thesis by (simp add: readDirNames_def)
qed

lemma walk_same:
  "(\<And>p. readDirNames w' p = readDirNames w p) \<Longrightarrow> filepath_Join w' = filepath_Join w
   \<Longrightarrow> os_Lstat w' = os_Lstat w
   \<Longrightarrow> walk k w' path isDir fn acc = walk k w path isDir fn acc"
  "(\<And>p. readDirNames w' p = readDirNames w p) \<Longrightarrow> filepath_Join w' = filepath_Join w
   \<Longrightarrow> os_Lstat w' = os_Lstat w
   \<Longrightarrow> walkNames k w' path names fn acc = walkNames k w path names fn acc"
proof (induction k w path isDir fn acc and k w path names fn acc rule: walk_walkNames.induct)
  case (1 w path isDir walkFn acc)
  show ?case by simp
next
  case (2 k w path isDir walkFn acc)
  show ?case
  proof (cases isDir)
    case False
    then show ?thesis by simp
  next
    case True
    show ?thesis
    proof (cases "readDirNames w path")
      case (Inl err)
      with True "2.prems"(1) show ?thesis by simp
    next
      case (Inr names)
      show ?thesis
      proof (cases "walkFn path (Some isDir) None acc")
        case None
        with True Inr "2.prems"(1) show ?thesis by simp
      next
        case (Some r)
        show ?thesis
        proof (cases r)
          case Panicked
          with True Some Inr "2.prems"(1) show ?thesis by simp
        next
          case (Returned acc' eo)
          show ?thesis
          proof (cases eo)
            case (Some e)
            with True Returned \<open>walkFn path (Some isDir) None acc = Some r\<close> Inr "2.prems"(1)
            show ?thesis by simp
          next
            case None
            have "walkNames k w' path names walkFn acc' = walkNames k w path names walkFn acc'"
              using "2.IH" [OF _ Inr _ refl refl "2.prems"] True Returned None
                \<open>walkFn path (Some isDir) None acc = Some r\<close> by simp
            with True Returned None \<open>walkFn path (Some isDir) None acc = Some r\<close> Inr "2.prems"(1)
            show ?thesis by simp
          qed
        qed
      qed
    qed
  qed
next
  case (3 k w path walkFn acc)
  show ?case by simp
next
  case (4 k w path name names walkFn acc)
  let ?f = "filepath_Join w path name"
  let ?step = "\<lambda>w. (case os_Lstat w ?f of
                     Inl err \<Rightarrow> walkFn ?f None (Some err) acc
                   | Inr fileIsDir \<Rightarrow> walk k w ?f fileIsDir walkFn acc)"
  have step: "?step w' = ?step w"
  proof (cases "os_Lstat w ?f")
    case (Inl err)
    with "4.prems"(3) show ?thesis by simp
  next
    case (Inr d)
    with "4.IH"(1) [OF refl Inr "4.prems"] "4.prems"(3) show ?thesis by simp
  qed
  show ?case
  proof (cases "?step w")
    case None
    with step "4.prems"(2) show ?thesis by (simp add: Let_def)
  next
    case (Some r)
    show ?thesis
    proof (cases r)
      case Panicked
      with Some step "4.prems"(2) show ?thesis by (simp add: Let_def)
    next
      case (Returned acc' eo)
      show ?thesis
      proof (cases eo)
        case (Some e)
        with Returned \<open>?step w = Some r\<close> step "4.prems"(2) show ?thesis by (simp add: Let_def)
      next
        case None
        have "walkNames k w' path names walkFn acc' = walkNames k w path names walkFn acc'"
          using "4.IH"(2) [OF refl _ refl refl "4.prems"] Returned None \<open>?step w = Some r\<close>
          by simp
        with Returned None \<open>?step w = Some r\<close> step "4.prems"(2) show ?thesis
          by (simp add: Let_def)
      qed
    qed
  qed
qed

lemma processLines_same:
  assumes "filepath_Dir w' = filepath_Dir w" and "filepath_Join w' = filepath_Join w"
  shows "processLines inc w' fp ls out = processLines inc w fp ls out"
proof (induction ls arbitrary: out)
  case Nil
  show ?case by simp
next
  case (Cons line rest)
  show ?case
    by (simp add: Let_def assms Cons.IH
             split: option.splits outcome.splits cong: option.case_cong)
qed

text \<open>The order in which the operating system lists a directory has no effect on a run.\<close>

lemma processFile_listing:
  assumes "\<And>p. rel_sum (=) (\<lambda>xs ys. mset xs = mset ys) (listing p) (os_Readdirnames w p)"
  shows "processFile n (w\<lparr>os_Readdirnames := listing\<rparr>) fp root isRoot
         = processFile n w fp root isRoot"
    and "processIncludePath n (w\<lparr>os_Readdirnames := listing\<rparr>) path root
         = processIncludePath n w path root"
proof -
  let ?w' = "w\<lparr>os_Readdirnames := listing\<rparr>"
  have rd: "readDirNames ?w' p = readDirNames w p" for p
    using assms by (rule readDirNames_listing)
  have wk: "Walk k ?w' p fn acc = Walk k w p fn acc" for k p fn acc
  proof -
    have "walk k ?w' p d fn acc = walk k w p d fn acc" for d
      by (rule walk_same(1)) (simp_all add: rd)
    then show ?thesis
      by (cases "os_Lstat w p") (simp_all add: Walk_def)
  qed
  have inc: "processIncludePath n ?w' p r = processIncludePath n w p r"
    if "\<And>fp isRoot. processFile n ?w' fp r isRoot = processFile n w fp r isRoot" for n p r
    using that by (cases "os_Stat w p") (simp_all add: wk)
  have pf: "processFile n ?w' fp r isRoot = processFile n w fp r isRoot" for n fp r isRoot
  proof (induction n arbitrary: fp isRoot)
    case 0
    show ?case by simp
  next
    case (Suc n)
    have "(\<lambda>p. processIncludePath n ?w' p r) = (\<lambda>p. processIncludePath n w p r)"
      by (rule ext) (rule inc [OF Suc])
    moreover have "processLines i ?w' fp ls out = processLines i w fp ls out" for i ls out
      by (rule processLines_same) simp_all
    ultimately show ?case
      by (simp add: Let_def del: processLines.simps processIncludePath.simps
               cong: if_cong option.case_cong outcome.case_cong sum.case_cong prod.case_cong)
  qed
  show "processFile n ?w' fp root isRoot = processFile n w fp root isRoot"
    by (rule pf)
  show "processIncludePath n ?w' path root = processIncludePath n w path root"
    by (rule inc) (rule pf)
qed

section \<open>Errors\<close>

lemma processFile_error_empty:
  assumes "processFile n w fp root isRoot = Some (Returned text (Some e))"
  shows "text = []"
proof (cases n)
  case 0
  with assms show ?thesis by simp
next
  case (Suc k)
  show ?thesis
  proof (cases "filepath_Abs w fp")
    case (Inl err)
    with assms Suc show ?thesis by simp
  next
    case (Inr a)
    show ?thesis
    proof (cases "os_Open w a")
      case (Inl err)
      with assms Suc Inr show ?thesis by simp
    next
      case r: (Inr dr)
      obtain data readErr where dr: "dr = (data, readErr)" by (cases dr)
      show ?thesis
        using assms Suc Inr r dr processLines_error_empty
        by (auto simp: Let_def simp del: processLines.simps processIncludePath.simps
                 split: option.splits outcome.splits if_splits)
    qed
  qed
qed

lemma processIncludePath_error_empty:
  assumes "processIncludePath n w p root = Some (Returned text (Some e))"
  shows "text = []"
  using assms processFile_error_empty
  by (auto split: sum.splits option.splits outcome.splits if_splits)

lemma processFile_failed_include:
  assumes "filepath_Abs w fp = Inr a" and "os_Open w a = Inr (data, readErr)"
    and "line \<in> set (scanTokens data)" and "isDirective line" and "includePath line \<noteq> []"
    and "processIncludePath n w (filepath_Join w (filepath_Dir w fp) (includePath line)) root
         = Some (Returned c (Some e))"
  shows "processFile (Suc n) w fp root isRoot \<noteq> Some (Returned t None)"
proof
  assume "processFile (Suc n) w fp root isRoot = Some (Returned t None)"
  then obtain out t' where "processLines (\<lambda>p. processIncludePath n w p root) w fp
      (scanTokens data) out = Some (Returned t' None)"
    using assms(1,2)
    by (auto simp: Let_def simp del: processLines.simps processIncludePath.simps
             split: option.splits outcome.splits if_splits)
  from processLines_success_includes [OF this assms(3,4,5)] assms(6)
  show False by simp
qed

lemma main_error:
  assumes "processFile n w (filepath_Join w rootDir ''cloud-init.tmpl.yaml'') rootDir True
           = Some (Returned text (Some e))"
  shows "main n w [prog, rootDir] = Some ([], 1)"
  using assms by (simp add: main_def Let_def split: sum.splits)

section \<open>The lines of an expansion\<close>

lemma scanTokens_no_LF: "l \<in> set (scanTokens s) \<Longrightarrow> LF \<notin> set l"
proof -
  assume "l \<in> set (scanTokens s)"
  then obtain r where r: "r \<in> set (rawLines s)" and l: "l = dropCR r"
    by (auto simp: scanTokens_def dest: set_takeWhileD)
  have "set (dropCR r) \<subseteq> set r"
    by (auto simp: dropCR_def dest: in_set_butlastD)
  with rawLines_no_LF [OF r] l show ?thesis by auto
qed

lemma blockLines_no_LF:
  assumes "l \<in> set (blockLines inc w fp line)" and "LF \<notin> set line"
  shows "LF \<notin> set l"
proof (cases "isDirective line")
  case False
  with assms show ?thesis by (simp add: blockLines_def)
next
  case True
  have i: "LF \<notin> set (indentationOf line)"
    using assms(2) by (auto simp: indentationOf_def dest: in_set_takeD)
  from assms(1) True show ?thesis
    using i scanTokens_no_LF
    by (auto simp: blockLines_def split: if_splits option.splits outcome.splits)
qed

lemma block_lines_no_LF:
  "list_all (\<lambda>l. LF \<notin> set l) (concat (map (blockLines inc w fp) (scanTokens data)))"
  using blockLines_no_LF scanTokens_no_LF by (fastforce simp: list_all_iff)

lemma rawLines_joinLines_all:
  "list_all (\<lambda>l. LF \<notin> set l) ls \<Longrightarrow> rawLines (joinLines ls) = ls"
  using rawLines_joinLines [of ls "[]"] by simp

lemma dropTrailingEmpty_decomp:
  "\<exists>j. ls = dropTrailingEmpty ls @ replicate j []"
proof -
  have "\<exists>j. xs = replicate j [] @ dropWhile (\<lambda>l. l = []) xs" for xs :: "string list"
  proof (induction xs)
    case Nil
    show ?case by simp
  next
    case (Cons x xs)
    show ?case
    proof (cases "x = []")
      case True
      from Cons obtain j where "xs = replicate j [] @ dropWhile (\<lambda>l. l = []) xs" by blast
      then have "x # xs = replicate (Suc j) [] @ dropWhile (\<lambda>l. l = []) (x # xs)"
        using True by simp
      then show ?thesis by blast
    next
      case False
      then have "x # xs = replicate 0 [] @ dropWhile (\<lambda>l. l = []) (x # xs)" by simp
      then show ?thesis by blast
    qed
  qed
  then obtain j where "rev ls = replicate j [] @ dropWhile (\<lambda>l. l = []) (rev ls)" by blast
  then have "rev (rev ls) = rev (replicate j [] @ dropWhile (\<lambda>l. l = []) (rev ls))" by simp
  then have "ls = dropTrailingEmpty ls @ replicate j []"
    by (simp add: dropTrailingEmpty_def)
  then show ?thesis by blast
qed

lemma dropTrailingEmpty_last:
  "dropTrailingEmpty ls \<noteq> [] \<Longrightarrow> last (dropTrailingEmpty ls) \<noteq> []"
proof -
  assume a: "dropTrailingEmpty ls \<noteq> []"
  then have ne: "dropWhile (\<lambda>l. l = []) (rev ls) \<noteq> []"
    by (simp add: dropTrailingEmpty_def)
  then have "hd (dropWhile (\<lambda>l. l = []) (rev ls)) \<noteq> []"
    using hd_dropWhile [of "\<lambda>l. l = []" "rev ls"] by simp
  with ne show ?thesis
    by (simp add: dropTrailingEmpty_def last_rev)
qed

lemma dropTrailingEmpty_keeps:
  "x \<in> set ls \<Longrightarrow> x \<noteq> [] \<Longrightarrow> x \<in> set (dropTrailingEmpty ls)"
proof -
  assume x: "x \<in> set ls" "x \<noteq> []"
  obtain j where j: "ls = dropTrailingEmpty ls @ replicate j []"
    using dropTrailingEmpty_decomp by blast
  from x(1) have "x \<in> set (dropTrailingEmpty ls @ replicate j [])"
    using j by simp
  with x(2) show ?thesis by auto
qed

lemma joinLines_replicate_empty: "joinLines (replicate j []) = replicate j LF"
  by (induction j) simp_all

lemma joinLines_snoc_last:
  "ls \<noteq> [] \<Longrightarrow> joinLines ls = (joinLines (butlast ls) @ last ls) @ [LF]"
  by (induction ls) auto

text \<open>
  What \<^verbatim>\<open>strings.TrimRight(finalResult, "\n")\<close> leaves of a text of lines that starts
  with a nonempty line: the lines without the empty lines at the end, and without the last
  line feed.
\<close>

lemma TrimRight_joinLines:
  assumes "s0 \<noteq> []" and "LF \<notin> set s0" and "list_all (\<lambda>l. LF \<notin> set l) bl"
  shows "TrimRight (joinLines (s0 # bl)) [LF] @ [LF] = joinLines (s0 # dropTrailingEmpty bl)"
proof -
  let ?bl' = "dropTrailingEmpty bl"
  let ?ls = "s0 # ?bl'"
  obtain j where j: "bl = ?bl' @ replicate j []"
    using dropTrailingEmpty_decomp by blast
  let ?Y = "joinLines (butlast ?ls) @ last ?ls"
  have lastne: "last ?ls \<noteq> []"
    using assms(1) dropTrailingEmpty_last [of bl] by (cases "?bl' = []") simp_all
  have "last ?ls \<in> set (s0 # bl)"
  proof (cases "?bl' = []")
    case True
    then show ?thesis by simp
  next
    case False
    then have "last ?ls \<in> set ?bl'" by simp
    then have "last ?ls \<in> set (?bl' @ replicate j [])" by simp
    with j show ?thesis by simp
  qed
  then have "LF \<notin> set (last ?ls)"
    using assms(2,3) by (auto simp: list_all_iff)
  with lastne have "last (last ?ls) \<noteq> LF"
    using last_in_set by metis
  with lastne have Y: "?Y = [] \<or> last ?Y \<noteq> LF"
    by simp
  have "joinLines (s0 # bl) = joinLines ?ls @ joinLines (replicate j [])"
    using j by (metis append_Cons joinLines_simps(3))
  also have "\<dots> = (?Y @ [LF]) @ replicate j LF"
    using joinLines_snoc_last [of ?ls] by (simp add: joinLines_replicate_empty)
  also have "\<dots> = ?Y @ replicate (Suc j) LF"
    by simp
  finally have "TrimRight (joinLines (s0 # bl)) [LF] = ?Y"
    using TrimRight_LF [OF Y, of "Suc j"] by simp
  then show ?thesis
    using joinLines_snoc_last [of ?ls] by simp
qed

lemma subseq_filter_blocks:
  assumes "\<And>x. P x \<Longrightarrow> f x = [x]"
  shows "subseq (filter P xs) (concat (map f xs))"
proof (induction xs)
  case Nil
  show ?case by simp
next
  case (Cons x xs)
  show ?case
  proof (cases "P x")
    case True
    with Cons assms show ?thesis by simp
  next
    case False
    with Cons show ?thesis by (simp add: subseq_drop_many)
  qed
qed

text \<open>What \<^verbatim>\<open>processFile\<close> returns, in terms of the lines of its loop.\<close>

lemma processFile_text:
  assumes "filepath_Abs w fp = Inr a" and "os_Open w a = Inr (data, readErr)"
    and "filepath_ToSlash w (case filepath_Rel w root a of Inl e \<Rightarrow> fp | Inr rel \<Rightarrow> rel) = m"
    and "processFile (Suc n) w fp root isRoot = Some (Returned out None)"
    and "bl = concat (map (blockLines (\<lambda>p. processIncludePath n w p root) w fp) (scanTokens data))"
  shows "out = (if isRoot then joinLines bl
                else TrimRight (''# START '' @ m @ [LF] @ joinLines bl) [LF] @ [LF]
                       @ ''# END '' @ m @ [LF])"
proof -
  let ?inc = "\<lambda>p. processIncludePath n w p root"
  let ?out0 = "if \<not> isRoot then ''# START '' @ m @ [LF] else []"
  from assms(1,2,3,4) obtain t where
    t: "processLines ?inc w fp (scanTokens data) ?out0 = Some (Returned t None)"
    and out: "out = (if \<not> isRoot then TrimRight t [LF] @ [LF] @ ''# END '' @ m @ [LF] else t)"
    by (auto simp: Let_def simp del: processLines.simps processIncludePath.simps
             split: option.splits outcome.splits if_splits)
  from processLines_lines [OF t] have "t = ?out0 @ joinLines bl"
    by (simp add: assms(5))
  with out show ?thesis by simp
qed

lemma rawLines_split: "rawLines (A @ LF # B) = rawLines (A @ [LF]) @ rawLines B"
proof (induction A)
  case Nil
  show ?case by simp
next
  case (Cons c A)
  show ?case
  proof (cases "c = LF")
    case True
    with Cons show ?thesis by simp
  next
    case False
    obtain l ls where r: "rawLines (A @ [LF]) = l # ls"
      by (cases "rawLines (A @ [LF])") simp_all
    with Cons False show ?thesis by simp
  qed
qed

lemma rawLines_snoc_LF_subset: "set (rawLines (s @ [LF])) \<subseteq> insert [] (set (rawLines s))"
proof (cases "s = []")
  case True
  then show ?thesis by simp
next
  case False
  show ?thesis
  proof (cases "last s = LF")
    case False
    with \<open>s \<noteq> []\<close> show ?thesis by (auto simp: rawLines_snoc_LF)
  next
    case True
    with \<open>s \<noteq> []\<close> have "s = butlast s @ [LF]"
      by (metis append_butlast_last_id)
    then have "rawLines (s @ [LF]) = rawLines (butlast s @ LF # [LF])"
      by (metis append_Cons append_Nil append_assoc)
    also have "\<dots> = rawLines (butlast s @ [LF]) @ rawLines [LF]"
      by (rule rawLines_split)
    also have "\<dots> = rawLines s @ [[]]"
      using \<open>s = butlast s @ [LF]\<close> by simp
    finally show ?thesis by auto
  qed
qed

text \<open>A line of an expansion is a line of the second scan that indents it.\<close>

lemma rescan_keeps_line:
  assumes "x \<in> set (rawLines c)" and "x \<noteq> []" and "last x \<noteq> CR"
    and "\<not> scanTooLong (TrimSuffix c [LF])"
  shows "x \<in> set (scanTokens (TrimSuffix c [LF]))"
proof -
  have "x \<in> set (rawLines (TrimSuffix c [LF]))"
  proof (cases "suffix [LF] c")
    case False
    with assms(1) show ?thesis by (simp add: TrimSuffix_def)
  next
    case True
    then obtain s where c: "c = s @ [LF]" by (auto simp: suffix_def)
    then have "TrimSuffix c [LF] = s" by (simp add: TrimSuffix_snoc)
    moreover have "x \<in> set (rawLines s)"
      using assms(1,2) rawLines_snoc_LF_subset [of s] c by auto
    ultimately show ?thesis by simp
  qed
  moreover have "dropCR x = x"
    using assms(3) by (simp add: dropCR_def)
  ultimately have "x \<in> set (map dropCR (rawLines (TrimSuffix c [LF])))"
    by force
  then show ?thesis
    using scanTokens_fits [OF assms(4)] by simp
qed

lemma TrimRight_joinLines_prefix:
  assumes "dropTrailingEmpty bl \<noteq> []" and "list_all (\<lambda>l. LF \<notin> set l) bl"
  shows "TrimRight (P @ joinLines bl) [LF] @ [LF] = P @ joinLines (dropTrailingEmpty bl)"
proof -
  let ?bl' = "dropTrailingEmpty bl"
  obtain j where j: "bl = ?bl' @ replicate j []"
    using dropTrailingEmpty_decomp by blast
  let ?Y = "P @ joinLines (butlast ?bl') @ last ?bl'"
  have lastne: "last ?bl' \<noteq> []"
    using assms(1) by (rule dropTrailingEmpty_last)
  have "last ?bl' \<in> set ?bl'"
    using assms(1) by simp
  then have "last ?bl' \<in> set (?bl' @ replicate j [])" by simp
  then have "last ?bl' \<in> set bl" using j by simp
  then have "LF \<notin> set (last ?bl')"
    using assms(2) by (auto simp: list_all_iff)
  with lastne have "last (last ?bl') \<noteq> LF"
    using last_in_set by metis
  with lastne have Y: "?Y = [] \<or> last ?Y \<noteq> LF"
    by simp
  have jl: "joinLines ?bl' = (joinLines (butlast ?bl') @ last ?bl') @ [LF]"
    using assms(1) by (rule joinLines_snoc_last)
  have "P @ joinLines bl = P @ joinLines ?bl' @ joinLines (replicate j [])"
    using j by (metis joinLines_simps(3))
  also have "\<dots> = ?Y @ replicate (Suc j) LF"
    using jl by (simp add: joinLines_replicate_empty)
  finally have "TrimRight (P @ joinLines bl) [LF] = ?Y"
    using TrimRight_LF [OF Y, of "Suc j"] by simp
  then show ?thesis
    using jl by simp
qed

text \<open>A nonempty line of the loop of \<^verbatim>\<open>processFile\<close> is a line of what it returns.\<close>

lemma processFile_keeps_line:
  assumes "filepath_Abs w fp = Inr a" and "os_Open w a = Inr (data, readErr)"
    and "processFile (Suc n) w fp root isRoot = Some (Returned out None)"
    and "x \<in> set (concat (map (blockLines (\<lambda>p. processIncludePath n w p root) w fp)
                           (scanTokens data)))"
    and "x \<noteq> []"
  shows "x \<in> set (rawLines out)"
proof -
  define bl where
    "bl = concat (map (blockLines (\<lambda>p. processIncludePath n w p root) w fp) (scanTokens data))"
  define m where
    "m = filepath_ToSlash w (case filepath_Rel w root a of Inl e \<Rightarrow> fp | Inr rel \<Rightarrow> rel)"
  have noLF: "list_all (\<lambda>l. LF \<notin> set l) bl"
    unfolding bl_def by (rule block_lines_no_LF)
  have x: "x \<in> set bl" using assms(4) by (simp add: bl_def)
  have out: "out = (if isRoot then joinLines bl
                else TrimRight (''# START '' @ m @ [LF] @ joinLines bl) [LF] @ [LF]
                       @ ''# END '' @ m @ [LF])"
    using assms(1,2) m_def [symmetric] assms(3) bl_def by (rule processFile_text)
  show ?thesis
  proof (cases isRoot)
    case True
    with out noLF x show ?thesis by (simp add: rawLines_joinLines_all del: joinLines_simps)
  next
    case False
    let ?bl' = "dropTrailingEmpty bl"
    have x': "x \<in> set ?bl'"
      using x assms(5) by (rule dropTrailingEmpty_keeps)
    then have ne: "?bl' \<noteq> []" by auto
    have noLF': "list_all (\<lambda>l. LF \<notin> set l) ?bl'"
    proof -
      obtain j where "bl = ?bl' @ replicate j []"
        using dropTrailingEmpty_decomp by blast
      then have "set ?bl' \<subseteq> set bl"
        by (metis set_append sup_ge1)
      with noLF show ?thesis by (auto simp: list_all_iff)
    qed
    have "TrimRight ((''# START '' @ m @ [LF]) @ joinLines bl) [LF] @ [LF]
        = (''# START '' @ m @ [LF]) @ joinLines ?bl'"
      using ne noLF by (rule TrimRight_joinLines_prefix)
    then have "out = (''# START '' @ m) @ LF # (joinLines ?bl' @ ''# END '' @ m @ [LF])"
      using out False by simp
    then have "rawLines out = rawLines ((''# START '' @ m) @ [LF])
        @ rawLines (joinLines ?bl' @ ''# END '' @ m @ [LF])"
      using rawLines_split [of "''# START '' @ m" "joinLines ?bl' @ ''# END '' @ m @ [LF]"]
      by (simp del: rawLines.simps)
    also have "rawLines (joinLines ?bl' @ ''# END '' @ m @ [LF])
        = ?bl' @ rawLines (''# END '' @ m @ [LF])"
      using noLF' by (rule rawLines_joinLines)
    finally show ?thesis using x' by simp
  qed
qed

lemma directive_block_line:
  assumes "l \<in> set ls" and "isDirective l" and "includePath l \<noteq> []"
    and "inc (filepath_Join w (filepath_Dir w fp) (includePath l)) = Some (Returned c None)"
    and "x \<in> set (scanTokens (TrimSuffix c [LF]))"
  shows "indentationOf l @ x \<in> set (concat (map (blockLines inc w fp) ls))"
proof -
  have "indentationOf l @ x \<in> set (blockLines inc w fp l)"
    using assms(2,3,4,5) by (simp add: blockLines_def)
  with assms(1) show ?thesis by auto
qed

lemma plain_block_line:
  assumes "y \<in> set ls" and "\<not> isDirective y"
  shows "y \<in> set (concat (map (blockLines inc w fp) ls))"
proof -
  have "y \<in> set (blockLines inc w fp y)"
    using assms(2) by (simp add: blockLines_def)
  with assms(1) show ?thesis by auto
qed

lemma fooWorld_root_expansion:
  "processFile (Suc (Suc 0)) fooWorld ''/r/cloud-init.tmpl.yaml'' ''/r'' True
     = Some (Returned (''  # START foo.txt'' @ [LF] @ ''  a'' @ [LF] @ ''  b'' @ [LF]
                        @ ''  # END foo.txt'' @ [LF] @ [LF]) None)"
  by (simp add: fooWorld_def eval_world eval_strings eval_trim)

lemma nestedWorld_paths:
  "filepath_Abs nestedWorld = Inr" "filepath_ToSlash nestedWorld = (\<lambda>p. p)"
  "filepath_Rel nestedWorld = exampleRel" "filepath_Dir nestedWorld = exampleDir"
  "filepath_Join nestedWorld = (\<lambda>d p. d @ ''/'' @ p)"
  by (simp_all add: nestedWorld_def exampleWorld_def)

lemma nestedWorld_files:
  "os_Open nestedWorld ''/r/cloud-init.tmpl.yaml'' = Inr (''  #include: m.txt'' @ [LF], None)"
  "os_Open nestedWorld ''/r/m.txt'' = Inr (''    #include: n.txt'' @ [LF], None)"
  "os_Open nestedWorld ''/r/n.txt'' = Inr (''a'' @ [LF, LF], None)"
  "os_Stat nestedWorld ''/r/m.txt'' = Inr False"
  "os_Stat nestedWorld ''/r/n.txt'' = Inr False"
  by (simp_all add: nestedWorld_def eval_world)

lemma nestedWorld_inner:
  "processFile (Suc 0) nestedWorld ''/r/n.txt'' ''/r'' False
     = Some (Returned (''# START n.txt'' @ [LF] @ ''a'' @ [LF] @ ''# END n.txt'' @ [LF]) None)"
  by (simp add: nestedWorld_paths nestedWorld_files exampleRel_def exampleDir_def
        eval_strings eval_trim)

lemma nestedWorld_middle:
  "processFile (Suc (Suc 0)) nestedWorld ''/r/m.txt'' ''/r'' False
     = Some (Returned (''# START m.txt'' @ [LF] @ ''    # START n.txt'' @ [LF] @ ''    a'' @ [LF]
                        @ ''    # END n.txt'' @ [LF] @ ''# END m.txt'' @ [LF]) None)"
proof -
  have "processIncludePath (Suc 0) nestedWorld ''/r/n.txt'' ''/r''
     = Some (Returned (''# START n.txt'' @ [LF] @ ''a'' @ [LF] @ ''# END n.txt'' @ [LF]) None)"
    using nestedWorld_inner by (simp add: nestedWorld_files del: processFile.simps)
  then show ?thesis
    by (simp add: nestedWorld_paths nestedWorld_files exampleRel_def exampleDir_def
          eval_strings eval_trim Let_def del: processIncludePath.simps)
qed

lemma nestedWorld_outer:
  "processFile (Suc (Suc (Suc 0))) nestedWorld ''/r/cloud-init.tmpl.yaml'' ''/r'' True
     = Some (Returned (''  # START m.txt'' @ [LF] @ ''      # START n.txt'' @ [LF]
                        @ ''      a'' @ [LF] @ ''      # END n.txt'' @ [LF]
                        @ ''  # END m.txt'' @ [LF] @ [LF]) None)"
proof -
  have "processIncludePath (Suc (Suc 0)) nestedWorld ''/r/m.txt'' ''/r''
     = Some (Returned (''# START m.txt'' @ [LF] @ ''    # START n.txt'' @ [LF] @ ''    a'' @ [LF]
                        @ ''    # END n.txt'' @ [LF] @ ''# END m.txt'' @ [LF]) None)"
    using nestedWorld_middle by (simp add: nestedWorld_files del: processFile.simps)
  then show ?thesis
    by (simp add: nestedWorld_paths nestedWorld_files exampleRel_def exampleDir_def
          eval_strings eval_trim Let_def del: processIncludePath.simps)
qed

lemmas nestedWorld_runs = nestedWorld_inner nestedWorld_middle nestedWorld_outer

lemma blockLines_fits:
  assumes "includeFits inc w fp line"
  shows "blockLines inc w fp line = expandedLines inc w fp line"
proof (cases "inc (filepath_Join w (filepath_Dir w fp) (includePath line))")
  case None
  then show ?thesis by (simp add: blockLines_def expandedLines_def)
next
  case (Some r)
  show ?thesis
  proof (cases r)
    case Panicked
    with Some show ?thesis by (simp add: blockLines_def expandedLines_def)
  next
    case (Returned c eo)
    show ?thesis
    proof (cases eo)
      case e: (Some e)
      with Some Returned show ?thesis by (simp add: blockLines_def expandedLines_def)
    next
      case None
      with Some Returned assms have "\<not> scanTooLong (TrimSuffix c [LF])"
        by (simp add: includeFits_def scanTooLong_def)
      then have "scanTokens (TrimSuffix c [LF]) = map dropCR (rawLines (TrimSuffix c [LF]))"
        by (rule scanTokens_fits)
      with Some Returned None show ?thesis
        by (simp add: blockLines_def expandedLines_def)
    qed
  qed
qed

lemma blockLines_all_fit:
  assumes "list_all (includeFits inc w fp) ls"
  shows "concat (map (blockLines inc w fp) ls) = concat (map (expandedLines inc w fp) ls)"
proof -
  have "map (blockLines inc w fp) ls = map (expandedLines inc w fp) ls"
    using assms by (intro map_cong refl blockLines_fits) (simp add: list_all_iff)
  then show ?thesis by (simp only:)
qed

lemma fooWorld_include:
  "processIncludePath (Suc 0) fooWorld ''/r/foo.txt'' ''/r''
     = Some (Returned (''# START foo.txt'' @ [LF] @ ''a'' @ [LF] @ ''b'' @ [LF]
                        @ ''# END foo.txt'' @ [LF]) None)"
  by (simp add: fooWorld_def eval_world eval_strings eval_trim)

text \<open>The expansion of the file foo.txt of the claim, as an included file.\<close>

lemma foo_expansion:
  assumes "filepath_Abs w full = Inr a"
    and "os_Open w a = Inr (''a'' @ [LF] @ ''b'' @ [LF], None)"
    and "filepath_ToSlash w (case filepath_Rel w root a of Inl e \<Rightarrow> full | Inr rel \<Rightarrow> rel) = m"
  shows "processFile (Suc n) w full root False
         = Some (Returned (''# START '' @ m @ [LF] @ ''a'' @ [LF] @ ''b'' @ [LF]
                            @ ''# END '' @ m @ [LF]) None)"
proof -
  have tokens: "scanTokens (''a'' @ [LF] @ ''b'' @ [LF]) = [''a'', ''b'']"
    by (simp add: eval_strings)
  have "list_all (\<lambda>l. \<not> isDirective l) [''a'', ''b'']"
    by (simp, simp add: eval_trim)
  then have lines: "processLines inc w full [''a'', ''b''] out
      = Some (Returned (out @ joinLines [''a'', ''b'']) None)" for inc out
    by (rule processLines_plain)
  have "TrimRight ((''# START '' @ m @ [LF] @ ''a'' @ [LF] @ ''b'') @ replicate 1 LF) [LF]
        = ''# START '' @ m @ [LF] @ ''a'' @ [LF] @ ''b''"
    by (intro TrimRight_LF) simp
  then have trim: "TrimRight (''# START '' @ m @ [LF] @ ''a'' @ [LF] @ ''b'' @ [LF]) [LF]
        = ''# START '' @ m @ [LF] @ ''a'' @ [LF] @ ''b''"
    by simp
  have err: "scannerErr (''a'' @ [LF] @ ''b'' @ [LF]) None = None"
    by (simp add: eval_strings)
  show ?thesis
    using assms tokens err trim
    by (simp add: Let_def lines del: processLines.simps)
qed

text \<open>A line of 64 KiB does not fit the scanner's buffer.\<close>

lemma long_line_scan:
  "scanTokens (replicate 65536 (CHR ''x'')) = []"
  "scanTooLong (replicate 65536 (CHR ''x''))"
proof -
  have "rawLines (replicate 65536 (CHR ''x'')) = [replicate 65536 (CHR ''x'')]"
    by (rule rawLines_last_line) simp_all
  then show "scanTokens (replicate 65536 (CHR ''x'')) = []"
    "scanTooLong (replicate 65536 (CHR ''x''))"
    by (simp_all add: scanTokens_def scanTooLong_def fitsBuffer_def MaxScanTokenSize_def)
qed

lemma long_line_fails:
  "processFile (Suc 0) longLineWorld ''/r/cloud-init.tmpl.yaml'' ''/r'' True
     = Some (Returned [] (Some (Errorf ''error reading file /r/cloud-init.tmpl.yaml: '' ErrTooLong)))"
proof -
  have "filepath_Abs longLineWorld = Inr"
    "os_Open longLineWorld ''/r/cloud-init.tmpl.yaml'' = Inr (replicate 65536 (CHR ''x''), None)"
    by (simp_all add: longLineWorld_def eval_world)
  then show ?thesis
    by (simp add: long_line_scan scannerErr_def)
qed

section \<open>The block of a directive\<close>

text \<open>
  Claim C1, amended. For every directive line \<^verbatim>\<open>  #include: foo.txt\<close> (two spaces of
  indentation) whose target is a single file with the two lines \<^verbatim>\<open>a\<close> and \<^verbatim>\<open>b\<close>, the
  block that \<^verbatim>\<open>processFile\<close> appends to its output in place of the directive is the
  expansion of the target as an included file, every line of it after the two spaces,
  and one empty line: the line \<^verbatim>\<open>  # START p\<close>, the lines \<^verbatim>\<open>  a\<close> and \<^verbatim>\<open>  b\<close>, the
  line \<^verbatim>\<open>  # END p\<close> and an empty line, where \<^verbatim>\<open>p\<close> is the path of the target relative
  to the root directory (a path without line feed, not ending in a carriage return, and
  short enough for the marker line to fit the scanner's buffer).
\<close>

theorem include_block_with_markers:
  assumes "filepath_Join w (filepath_Dir w fp) ''foo.txt'' = full"
    and "os_Stat w full = Inr False"
    and "filepath_Abs w full = Inr a"
    and "os_Open w a = Inr (''a'' @ [LF] @ ''b'' @ [LF], None)"
    and "filepath_ToSlash w (case filepath_Rel w root a of Inl e \<Rightarrow> full | Inr rel \<Rightarrow> rel) = m"
    and "LF \<notin> set m" and "m = [] \<or> last m \<noteq> CR" and "fitsBuffer (''# START '' @ m)"
  shows "processLines (\<lambda>p. processIncludePath (Suc n) w p root) w fp
           (''  #include: foo.txt'' # rest) out
       = processLines (\<lambda>p. processIncludePath (Suc n) w p root) w fp rest
           (out @ ''  # START '' @ m @ [LF] @ ''  a'' @ [LF] @ ''  b'' @ [LF]
                @ ''  # END '' @ m @ [LF] @ [LF])"
proof -
  let ?ls = "[''# START '' @ m, ''a'', ''b'']"
  define body where "body = joinLines ?ls @ ''# END '' @ m"
  define content where "content = body @ [LF]"
  have "processFile (Suc n) w full root False = Some (Returned content None)"
    using foo_expansion [OF assms(3,4,5), of n] by (simp add: content_def body_def)
  then have inc: "processIncludePath (Suc n) w full root = Some (Returned content None)"
    using assms(2) by (simp del: processFile.simps)
  have suf: "TrimSuffix content [LF] = body"
    unfolding content_def by (rule TrimSuffix_snoc)
  have "rawLines body = ?ls @ rawLines (''# END '' @ m)"
    unfolding body_def using assms(6) by (intro rawLines_joinLines) simp
  also have "rawLines (''# END '' @ m) = [''# END '' @ m]"
    using assms(6) by (intro rawLines_last_line) simp_all
  finally have raw: "rawLines body = [''# START '' @ m, ''a'', ''b'', ''# END '' @ m]"
    by simp
  have fit: "fitsBuffer (''# END '' @ m)"
    using assms(8) by (simp add: fitsBuffer_def)
  have cr: "dropCR (''# START '' @ m) = ''# START '' @ m" "dropCR (''# END '' @ m) = ''# END '' @ m"
    using assms(7) by (auto simp: dropCR_def split: if_splits)
  have tokens: "scanTokens body = [''# START '' @ m, ''a'', ''b'', ''# END '' @ m]"
    unfolding scanTokens_def raw using assms(8) fit cr
    by (simp add: fitsBuffer_def MaxScanTokenSize_def dropCR_def)
  have trimmed: "TrimSpace ''  #include: foo.txt'' = ''#include: foo.txt''"
    by (simp add: eval_trim)
  have path: "TrimSpace (TrimPrefix ''#include: foo.txt'' ''#include:'') = ''foo.txt''"
    by (simp add: TrimPrefix_def eval_trim)
  have ne: "body \<noteq> []"
    by (simp add: body_def)
  show ?thesis
    apply (subst processLines.simps)
    apply (simp only: trimmed Let_def path)
    apply (simp add: HasPrefix_def slice_to_def assms(1) inc suf tokens ne
                del: processLines.simps processIncludePath.simps)
    done
qed

theorem include_block_with_markers_witness:
  "filepath_Join fooWorld (filepath_Dir fooWorld ''/r/cloud-init.tmpl.yaml'') ''foo.txt''
     = ''/r/foo.txt''
   \<and> os_Stat fooWorld ''/r/foo.txt'' = Inr False
   \<and> filepath_Abs fooWorld ''/r/foo.txt'' = Inr ''/r/foo.txt''
   \<and> os_Open fooWorld ''/r/foo.txt'' = Inr (''a'' @ [LF] @ ''b'' @ [LF], None)
   \<and> filepath_ToSlash fooWorld
        (case filepath_Rel fooWorld ''/r'' ''/r/foo.txt'' of
           Inl e \<Rightarrow> ''/r/foo.txt'' | Inr rel \<Rightarrow> rel) = ''foo.txt''
   \<and> LF \<notin> set ''foo.txt'' \<and> (''foo.txt'' = [] \<or> last ''foo.txt'' \<noteq> CR)
   \<and> fitsBuffer (''# START '' @ ''foo.txt'')
   \<and> processLines (\<lambda>p. processIncludePath (Suc 0) fooWorld p ''/r'') fooWorld
         ''/r/cloud-init.tmpl.yaml'' [''  #include: foo.txt''] []
       = Some (Returned (''  # START foo.txt'' @ [LF] @ ''  a'' @ [LF] @ ''  b'' @ [LF]
                          @ ''  # END foo.txt'' @ [LF] @ [LF]) None)"
proof -
  have h1: "filepath_Join fooWorld (filepath_Dir fooWorld ''/r/cloud-init.tmpl.yaml'') ''foo.txt''
     = ''/r/foo.txt''"
    by (simp add: fooWorld_def eval_world)
  have h2: "os_Stat fooWorld ''/r/foo.txt'' = Inr False"
    by (simp add: fooWorld_def eval_world)
  have h3: "filepath_Abs fooWorld ''/r/foo.txt'' = Inr ''/r/foo.txt''"
    by (simp add: fooWorld_def eval_world)
  have h4: "os_Open fooWorld ''/r/foo.txt'' = Inr (''a'' @ [LF] @ ''b'' @ [LF], None)"
    by (simp add: fooWorld_def eval_world)
  have h5: "filepath_ToSlash fooWorld
        (case filepath_Rel fooWorld ''/r'' ''/r/foo.txt'' of
           Inl e \<Rightarrow> ''/r/foo.txt'' | Inr rel \<Rightarrow> rel) = ''foo.txt''"
    by (simp add: fooWorld_def eval_world)
  have h6: "LF \<notin> set ''foo.txt''" by simp
  have h7: "''foo.txt'' = [] \<or> last ''foo.txt'' \<noteq> CR" by simp
  have h8: "fitsBuffer (''# START '' @ ''foo.txt'')"
    by (simp add: eval_strings)
  show ?thesis
    using h1 h2 h3 h4 h5 h6 h7 h8
      include_block_with_markers [OF h1 h2 h3 h4 h5 h6 h7 h8, where n = 0 and rest = "[]" and out = "[]"]
    by (simp del: processLines.simps(2) processIncludePath.simps)
qed

text \<open>
  The claim as stated fails: the block holds the START and END marker lines of the
  target. The root file of the run below consists of the directive line alone, so that
  its expansion is the block.
\<close>

theorem include_block_with_markers_counterexample:
  "os_Open fooWorld ''/r/cloud-init.tmpl.yaml'' = Inr (''  #include: foo.txt'' @ [LF], None)
   \<and> os_Open fooWorld ''/r/foo.txt'' = Inr (''a'' @ [LF] @ ''b'' @ [LF], None)
   \<and> processFile (Suc (Suc 0)) fooWorld ''/r/cloud-init.tmpl.yaml'' ''/r'' True
       = Some (Returned (''  # START foo.txt'' @ [LF] @ ''  a'' @ [LF] @ ''  b'' @ [LF]
                          @ ''  # END foo.txt'' @ [LF] @ [LF]) None)
   \<and> ''  # START foo.txt'' @ [LF] @ ''  a'' @ [LF] @ ''  b'' @ [LF] @ ''  # END foo.txt'' @ [LF] @ [LF]
       \<noteq> ''  a'' @ [LF] @ ''  b'' @ [LF] @ [LF]"
  by (simp add: fooWorld_def eval_world eval_strings eval_trim)

section \<open>A file that includes itself\<close>


section \<open>Input lines and output lines\<close>




section \<open>A root file without directives\<close>

text \<open>
  Claim C4, amended. For every root file that opens and reads without error, has no line
  of 65536 bytes or more and no directive line, \<^verbatim>\<open>processFile\<close> returns the content of
  the file with every carriage return before a line feed removed and, when the content is
  not empty and does not end in a line feed, with a line feed appended.
\<close>

theorem root_without_directives:
  assumes "filepath_Abs w fp = Inr a" and "os_Open w a = Inr (data, None)"
    and "\<not> scanTooLong data" and "list_all (\<lambda>l. \<not> isDirective l) (scanTokens data)"
  shows "processFile (Suc n) w fp root True
         = Some (Returned (normalizeEOL (withFinalLF data)) None)"
  using processFile_plain [OF assms] joinLines_scanTokens [OF assms(3)] by simp

theorem root_without_directives_witness:
  "filepath_Abs crlfWorld ''/r/cloud-init.tmpl.yaml'' = Inr ''/r/cloud-init.tmpl.yaml''
   \<and> os_Open crlfWorld ''/r/cloud-init.tmpl.yaml'' = Inr (''x:'' @ [CR, LF] @ ''y'', None)
   \<and> \<not> scanTooLong (''x:'' @ [CR, LF] @ ''y'')
   \<and> list_all (\<lambda>l. \<not> isDirective l) (scanTokens (''x:'' @ [CR, LF] @ ''y''))
   \<and> processFile (Suc 0) crlfWorld ''/r/cloud-init.tmpl.yaml'' ''/r'' True
       = Some (Returned (''x:'' @ [LF] @ ''y'' @ [LF]) None)"
proof -
  have h1: "filepath_Abs crlfWorld ''/r/cloud-init.tmpl.yaml'' = Inr ''/r/cloud-init.tmpl.yaml''"
    by (simp add: crlfWorld_def eval_world)
  have h2: "os_Open crlfWorld ''/r/cloud-init.tmpl.yaml'' = Inr (''x:'' @ [CR, LF] @ ''y'', None)"
    by (simp add: crlfWorld_def eval_world)
  have h3: "\<not> scanTooLong (''x:'' @ [CR, LF] @ ''y'')"
    by (simp add: eval_strings)
  have "scanTokens (''x:'' @ [CR, LF] @ ''y'') = [''x:'', ''y'']"
    by (simp add: eval_strings)
  then have h4: "list_all (\<lambda>l. \<not> isDirective l) (scanTokens (''x:'' @ [CR, LF] @ ''y''))"
    by (simp, simp add: eval_trim)
  show ?thesis
    using h1 h2 h3 h4 root_without_directives [OF h1 h2 h3 h4, of 0 "''/r''"]
    by (simp add: withFinalLF_def)
qed

text \<open>
  The claim as stated fails on a file that does not end in a line feed: the file of the
  three bytes \<^verbatim>\<open>abc\<close> has no directive line and no line ending to normalise, and its
  expansion is \<^verbatim>\<open>abc\<close> followed by a line feed. It also fails on a file with a line of
  65536 bytes, which has no directive line either: the scanner stops with
  \<^verbatim>\<open>ErrTooLong\<close> and \<^verbatim>\<open>processFile\<close> returns an error and no text.
\<close>

theorem root_without_directives_counterexample:
  "list_all (\<lambda>l. \<not> isDirective l) (scanTokens ''abc'')
   \<and> processFile (Suc 0) noFinalLFWorld ''/r/cloud-init.tmpl.yaml'' ''/r'' True
       = Some (Returned (''abc'' @ [LF]) None)
   \<and> normalizeEOL ''abc'' \<noteq> ''abc'' @ [LF]
   \<and> list_all (\<lambda>l. \<not> isDirective l) (scanTokens (replicate 65536 (CHR ''x'')))
   \<and> processFile (Suc 0) longLineWorld ''/r/cloud-init.tmpl.yaml'' ''/r'' True
       = Some (Returned []
           (Some (Errorf ''error reading file /r/cloud-init.tmpl.yaml: '' ErrTooLong)))"
proof -
  have "scanTokens ''abc'' = [''abc'']"
    by (simp add: eval_strings)
  then have "list_all (\<lambda>l. \<not> isDirective l) (scanTokens ''abc'')"
    by (simp, simp add: eval_trim)
  moreover have "processFile (Suc 0) noFinalLFWorld ''/r/cloud-init.tmpl.yaml'' ''/r'' True
       = Some (Returned (''abc'' @ [LF]) None)"
    by (simp add: noFinalLFWorld_def eval_world eval_strings eval_trim)
  moreover have "list_all (\<lambda>l. \<not> isDirective l) (scanTokens (replicate 65536 (CHR ''x'')))"
    by (simp add: long_line_scan)
  ultimately show ?thesis
    using long_line_fails by simp
qed

section \<open>Indentation of nested includes\<close>




section \<open>Expanding an expansion again\<close>

text \<open>
  Claim C6, amended. For every text that a root expansion has returned, if no line of the
  text is a directive, ends in a carriage return or has 65536 bytes or more, then the
  root expansion of a file with that text returns the text unchanged.
\<close>

theorem reexpansion_unchanged:
  assumes "processFile m w fp root True = Some (Returned out None)"
    and "filepath_Abs w' fp' = Inr a'" and "os_Open w' a' = Inr (out, None)"
    and "list_all (\<lambda>l. fitsBuffer l \<and> (l = [] \<or> last l \<noteq> CR)) (rawLines out)"
    and "list_all (\<lambda>l. \<not> isDirective l) (scanTokens out)"
  shows "processFile (Suc n) w' fp' root' True = Some (Returned out None)"
proof -
  have fits: "\<not> scanTooLong out"
    using assms(4) by (simp add: scanTooLong_def list_all_iff)
  have "map dropCR (rawLines out) = rawLines out"
    using assms(4) by (simp add: list_all_iff dropCR_id map_idI)
  then have "scanTokens out = rawLines out"
    using scanTokens_fits [OF fits] by simp
  moreover have "joinLines (rawLines out) = out"
    using processFile_root_ends_LF [OF assms(1)] by (rule joinLines_rawLines)
  ultimately show ?thesis
    using processFile_plain [OF assms(2) assms(3) fits assms(5), of n root'] by simp
qed

theorem reexpansion_unchanged_witness:
  "processFile (Suc 0) crWorld ''/r/cloud-init.tmpl.yaml'' ''/r'' True
     = Some (Returned (''a'' @ [LF]) None)
   \<and> filepath_Abs (exampleWorld [(''/t/out.yaml'', RegularFile (''a'' @ [LF]))]) ''/t/out.yaml''
       = Inr ''/t/out.yaml''
   \<and> os_Open (exampleWorld [(''/t/out.yaml'', RegularFile (''a'' @ [LF]))]) ''/t/out.yaml''
       = Inr (''a'' @ [LF], None)
   \<and> list_all (\<lambda>l. fitsBuffer l \<and> (l = [] \<or> last l \<noteq> CR)) (rawLines (''a'' @ [LF]))
   \<and> list_all (\<lambda>l. \<not> isDirective l) (scanTokens (''a'' @ [LF]))
   \<and> processFile (Suc 0) (exampleWorld [(''/t/out.yaml'', RegularFile (''a'' @ [LF]))])
        ''/t/out.yaml'' ''/t'' True
       = Some (Returned (''a'' @ [LF]) None)"
proof -
  let ?w' = "exampleWorld [(''/t/out.yaml'', RegularFile (''a'' @ [LF]))]"
  have h1: "processFile (Suc 0) crWorld ''/r/cloud-init.tmpl.yaml'' ''/r'' True
     = Some (Returned (''a'' @ [LF]) None)"
    by (simp add: crWorld_def eval_world eval_strings eval_trim)
  have h2: "filepath_Abs ?w' ''/t/out.yaml'' = Inr ''/t/out.yaml''"
    by (simp add: eval_world)
  have h3: "os_Open ?w' ''/t/out.yaml'' = Inr (''a'' @ [LF], None)"
    by (simp add: eval_world)
  have h4: "list_all (\<lambda>l. fitsBuffer l \<and> (l = [] \<or> last l \<noteq> CR)) (rawLines (''a'' @ [LF]))"
    by (simp add: eval_strings)
  have "scanTokens (''a'' @ [LF]) = [''a'']"
    by (simp add: eval_strings)
  then have h5: "list_all (\<lambda>l. \<not> isDirective l) (scanTokens (''a'' @ [LF]))"
    by (simp, simp add: eval_trim)
  show ?thesis
    using h1 h2 h3 h4 h5 reexpansion_unchanged [OF h1 h2 h3 h4 h5, of 0 "''/t''"]
    by blast
qed

text \<open>
  The claim as stated fails on an output that has a line ending in a carriage return. The
  root file of the four bytes \<^verbatim>\<open>a\r\r\n\<close> expands to \<^verbatim>\<open>a\r\n\<close> (the scanner drops one
  carriage return), a text without directive lines; expanding that text gives \<^verbatim>\<open>a\n\<close>.
\<close>

theorem reexpansion_counterexample:
  "processFile (Suc 0) crcrWorld ''/r/cloud-init.tmpl.yaml'' ''/r'' True
     = Some (Returned (''a'' @ [CR, LF]) None)
   \<and> list_all (\<lambda>l. \<not> isDirective l) (scanTokens (''a'' @ [CR, LF]))
   \<and> os_Open crWorld ''/r/cloud-init.tmpl.yaml'' = Inr (''a'' @ [CR, LF], None)
   \<and> processFile (Suc 0) crWorld ''/r/cloud-init.tmpl.yaml'' ''/r'' True
       = Some (Returned (''a'' @ [LF]) None)
   \<and> ''a'' @ [LF] \<noteq> ''a'' @ [CR, LF]"
proof -
  have "processFile (Suc 0) crcrWorld ''/r/cloud-init.tmpl.yaml'' ''/r'' True
     = Some (Returned (''a'' @ [CR, LF]) None)"
    by (simp add: crcrWorld_def eval_world eval_strings eval_trim)
  moreover have "scanTokens (''a'' @ [CR, LF]) = [''a'']"
    by (simp add: eval_strings)
  then have "list_all (\<lambda>l. \<not> isDirective l) (scanTokens (''a'' @ [CR, LF]))"
    by (simp, simp add: eval_trim)
  moreover have "os_Open crWorld ''/r/cloud-init.tmpl.yaml'' = Inr (''a'' @ [CR, LF], None)"
    by (simp add: crWorld_def eval_world)
  moreover have "processFile (Suc 0) crWorld ''/r/cloud-init.tmpl.yaml'' ''/r'' True
       = Some (Returned (''a'' @ [LF]) None)"
    by (simp add: crWorld_def eval_world eval_strings eval_trim)
  ultimately show ?thesis by simp
qed

section \<open>Including a directory\<close>



section \<open>The first error ends the run\<close>



section \<open>An empty included file\<close>

text \<open>
  Claim C9, amended. Expanding an empty file as an included file (\<^verbatim>\<open>isRoot\<close> false)
  yields exactly the two marker lines \<^verbatim>\<open># START p\<close> and \<^verbatim>\<open># END p\<close>, each followed by a
  line feed, where \<^verbatim>\<open>p\<close> is the path of the file relative to the root directory,
  provided that \<^verbatim>\<open>p\<close> does not end in a line feed.
\<close>

theorem empty_include_markers:
  assumes "filepath_Abs w fp = Inr a" and "os_Open w a = Inr ([], None)"
    and "filepath_ToSlash w (case filepath_Rel w root a of Inl e \<Rightarrow> fp | Inr rel \<Rightarrow> rel) = m"
    and "m = [] \<or> last m \<noteq> LF"
  shows "processFile (Suc n) w fp root False
         = Some (Returned (''# START '' @ m @ [LF] @ ''# END '' @ m @ [LF]) None)"
proof -
  have "TrimRight ((''# START '' @ m) @ replicate 1 LF) [LF] = ''# START '' @ m"
    using assms(4) by (intro TrimRight_LF) auto
  then have "TrimRight (''# START '' @ m @ [LF]) [LF] = ''# START '' @ m"
    by simp
  then show ?thesis
    using assms(1,2,3) by (simp add: Let_def scanTokens_def scannerErr_def scanTooLong_def)
qed

theorem empty_include_markers_witness:
  "filepath_Abs (exampleWorld [(''/r/d/x'', RegularFile [])]) ''/r/d/x'' = Inr ''/r/d/x''
   \<and> os_Open (exampleWorld [(''/r/d/x'', RegularFile [])]) ''/r/d/x'' = Inr ([], None)
   \<and> filepath_ToSlash (exampleWorld [(''/r/d/x'', RegularFile [])])
        (case filepath_Rel (exampleWorld [(''/r/d/x'', RegularFile [])]) ''/r'' ''/r/d/x'' of
           Inl e \<Rightarrow> ''/r/d/x'' | Inr rel \<Rightarrow> rel) = ''d/x''
   \<and> (''d/x'' = [] \<or> last ''d/x'' \<noteq> LF)
   \<and> processFile (Suc 0) (exampleWorld [(''/r/d/x'', RegularFile [])]) ''/r/d/x'' ''/r'' False
       = Some (Returned (''# START d/x'' @ [LF] @ ''# END d/x'' @ [LF]) None)"
proof -
  let ?w = "exampleWorld [(''/r/d/x'', RegularFile [])]"
  have h1: "filepath_Abs ?w ''/r/d/x'' = Inr ''/r/d/x''"
    by (simp add: eval_world)
  have h2: "os_Open ?w ''/r/d/x'' = Inr ([], None)"
    by (simp add: eval_world)
  have h3: "filepath_ToSlash ?w
        (case filepath_Rel ?w ''/r'' ''/r/d/x'' of Inl e \<Rightarrow> ''/r/d/x'' | Inr rel \<Rightarrow> rel) = ''d/x''"
    by (simp add: eval_world)
  have h4: "''d/x'' = [] \<or> last ''d/x'' \<noteq> LF"
    by simp
  show ?thesis
    using h1 h2 h3 h4 empty_include_markers [OF h1 h2 h3 h4, of 0]
    by simp
qed

text \<open>
  The claim as stated fails for a file whose name ends in a line feed, as a file that a
  directory walk finds may: \<^verbatim>\<open>strings.TrimRight\<close> removes the line feeds at the end of
  the START line, those of the name among them, and the START line of the result lacks
  the line feed that the END line has.
\<close>

theorem empty_include_markers_counterexample:
  "os_Open newlineNameWorld (''/r/d/x'' @ [LF]) = Inr ([], None)
   \<and> filepath_Rel newlineNameWorld ''/r'' (''/r/d/x'' @ [LF]) = Inr (''d/x'' @ [LF])
   \<and> processFile (Suc 0) newlineNameWorld (''/r/d/x'' @ [LF]) ''/r'' False
       = Some (Returned (''# START d/x'' @ [LF] @ ''# END d/x'' @ [LF, LF]) None)
   \<and> ''# START d/x'' @ [LF] @ ''# END d/x'' @ [LF, LF]
       \<noteq> ''# START '' @ (''d/x'' @ [LF]) @ [LF] @ ''# END '' @ (''d/x'' @ [LF]) @ [LF]"
  by (simp add: newlineNameWorld_def eval_world eval_strings eval_trim)

section \<open>The indentation slice\<close>

text \<open>
  Claim C10. For every line whose trimmed form starts with \<^verbatim>\<open>#include:\<close>, the raw line
  contains the character \<^verbatim>\<open>#\<close>: \<^verbatim>\<open>strings.Index(line, "#")\<close> is not negative and not
  beyond the end of the line, so the slice \<^verbatim>\<open>line[:index]\<close> does not panic; and the
  indentation that the slice captures consists of white space runes only.
\<close>

theorem indentation_slice_safe:
  assumes "HasPrefix (TrimSpace line) ''#include:''"
  shows "0 \<le> Index line ''#'' \<and> Index line ''#'' \<le> int (length line)
     \<and> (\<exists>rs. set rs \<subseteq> set spaceRunes
            \<and> slice_to line (Index line ''#'') = Some (concat rs))"
proof -
  obtain rs t where rs: "set rs \<subseteq> set spaceRunes" and line: "line = concat rs @ CHR ''#'' # t"
    using directive_decomp [OF assms] by blast
  have "CHR ''#'' \<notin> set (concat rs)"
    using rs spaceRunes_no_hash by auto
  then have idx: "Index line ''#'' = int (length (concat rs))"
    unfolding line by (rule Index_skip)
  have "slice_to line (Index line ''#'') = Some (concat rs)"
    unfolding idx by (simp add: slice_to_def line)
  with idx rs show ?thesis by (auto simp: line)
qed

theorem indentation_slice_safe_witness:
  "HasPrefix (TrimSpace ''  #include: foo.txt'') ''#include:''
   \<and> 0 \<le> Index ''  #include: foo.txt'' ''#''
   \<and> Index ''  #include: foo.txt'' ''#'' \<le> int (length ''  #include: foo.txt'')
   \<and> (\<exists>rs. set rs \<subseteq> set spaceRunes
          \<and> slice_to ''  #include: foo.txt'' (Index ''  #include: foo.txt'' ''#'') = Some (concat rs))"
proof -
  have h: "HasPrefix (TrimSpace ''  #include: foo.txt'') ''#include:''"
    by (simp add: eval_trim)
  show ?thesis
    using h indentation_slice_safe [OF h] by blast
qed

end
